theory Spec2Isabelle
  imports Complex_Main "HOL-Library.Sublist"
begin

section \<open>Text primitives\<close>

text \<open>
  Python \<open>str\<close> values are modelled as \<open>string\<close> (lists of \<open>char\<close>). The embedding
  covers ASCII text: the character classes and the case mapping below are those of
  Python on code points below 128, and a character outside that range is treated as a
  symbol that is neither a letter, a digit nor white space and that \<open>upper\<close> leaves alone.
\<close>

definition lower_letters :: string where
  "lower_letters = ''abcdefghijklmnopqrstuvwxyz''"

definition upper_letters :: string where
  "upper_letters = ''ABCDEFGHIJKLMNOPQRSTUVWXYZ''"

definition is_lower :: "char \<Rightarrow> bool" where
  "is_lower c = (c \<in> set lower_letters)"

definition is_upper :: "char \<Rightarrow> bool" where
  "is_upper c = (c \<in> set upper_letters)"

text \<open>\<open>ch.isalpha()\<close>, \<open>ch.isdigit()\<close> and \<open>ch.isspace()\<close> on one character.\<close>

definition is_alpha :: "char \<Rightarrow> bool" where
  "is_alpha c = (is_upper c \<or> is_lower c)"

definition is_digit :: "char \<Rightarrow> bool" where
  "is_digit c = (c \<in> set ''0123456789'')"

definition is_space :: "char \<Rightarrow> bool" where
  "is_space c = (c \<in> set [CHR 0x09, CHR 0x0A, CHR 0x0B, CHR 0x0C, CHR 0x0D,
                            CHR 0x1C, CHR 0x1D, CHR 0x1E, CHR 0x1F, CHR 0x20])"

definition upper_char :: "char \<Rightarrow> char" where
  "upper_char c = (case map_of (zip lower_letters upper_letters) c of
                     Some u \<Rightarrow> u
                   | None \<Rightarrow> c)"

text \<open>\<open>s.upper()\<close>\<close>

definition str_upper :: "string \<Rightarrow> string" where
  "str_upper s = map upper_char s"

text \<open>\<open>s.strip(chars)\<close>, with the set of stripped characters as a predicate, and \<open>s.strip()\<close>.\<close>

definition strip_where :: "(char \<Rightarrow> bool) \<Rightarrow> string \<Rightarrow> string" where
  "strip_where p s = rev (dropWhile p (rev (dropWhile p s)))"

definition str_strip :: "string \<Rightarrow> string" where
  "str_strip s = strip_where is_space s"

text \<open>\<open>s.strip(' ;')\<close>\<close>

definition strip_space_semi :: "string \<Rightarrow> string" where
  "strip_space_semi s = strip_where (\<lambda>c. c \<in> set '' ;'') s"

text \<open>\<open>s.startswith(p)\<close>, \<open>s.endswith(p)\<close> and \<open>sub in s\<close>.\<close>

definition startswith :: "string \<Rightarrow> string \<Rightarrow> bool" where
  "startswith s p = prefix p s"

definition endswith :: "string \<Rightarrow> string \<Rightarrow> bool" where
  "endswith s p = prefix (rev p) (rev s)"

fun contains :: "string \<Rightarrow> string \<Rightarrow> bool" where
  "contains [] sub = (sub = [])"
| "contains (c # cs) sub = (prefix sub (c # cs) \<or> contains cs sub)"

text \<open>\<open>any(k in s for k in ks)\<close> and \<open>any(s.startswith(k) for k in ks)\<close>\<close>

definition contains_any :: "string \<Rightarrow> string list \<Rightarrow> bool" where
  "contains_any s ks = list_ex (contains s) ks"

definition startswith_any :: "string \<Rightarrow> string list \<Rightarrow> bool" where
  "startswith_any s ks = list_ex (startswith s) ks"

text \<open>
  \<open>s.split(sep)\<close> for a one-character separator (the pieces between the separators, the
  empty ones included), generalised to a predicate; \<open>s.split()\<close> splits at runs of white
  space and has no empty piece.
\<close>

fun split_where :: "(char \<Rightarrow> bool) \<Rightarrow> string \<Rightarrow> string list" where
  "split_where p [] = [[]]"
| "split_where p (c # cs) =
     (if p c then [] # split_where p cs
      else (case split_where p cs of
              [] \<Rightarrow> [[c]]
            | w # ws \<Rightarrow> (c # w) # ws))"

definition split_char :: "char \<Rightarrow> string \<Rightarrow> string list" where
  "split_char sep s = split_where (\<lambda>c. c = sep) s"

definition split_ws :: "string \<Rightarrow> string list" where
  "split_ws s = filter (\<lambda>w. w \<noteq> []) (split_where is_space s)"

text \<open>\<open>sep.join(parts)\<close>\<close>

fun str_join :: "string \<Rightarrow> string list \<Rightarrow> string" where
  "str_join sep [] = []"
| "str_join sep [x] = x"
| "str_join sep (x # y # ys) = x @ sep @ str_join sep (y # ys)"

text \<open>
  \<open>s.replace(old, new)\<close> for a non-empty \<open>old\<close>: the occurrences are replaced from left
  to right, without overlap.
\<close>

fun str_replace :: "string \<Rightarrow> string \<Rightarrow> string \<Rightarrow> string" where
  "str_replace old new [] = []"
| "str_replace old new (c # cs) =
     (if prefix old (c # cs) then new @ str_replace old new (drop (length old - 1) cs)
      else c # str_replace old new cs)"

section \<open>Regular expressions\<close>

text \<open>
  The fragment of Python's \<open>re\<close> the program uses. \<open>rx_match r s\<close> lists the remainders
  of \<open>s\<close> after every way \<open>r\<close> can match at the start of \<open>s\<close>, in the order in which the
  backtracking matcher tries them: a repetition is greedy (one more round before
  stopping). The head of the list is the match \<open>re\<close> reports.
\<close>

datatype rx =
    Cls "char \<Rightarrow> bool"
  | Seq rx rx
  | Alt rx rx
  | Rep nat nat rx
  | Many1 "char \<Rightarrow> bool"

text \<open>\<open>c+\<close> for a character class \<open>c\<close>: the longest run first, at least one character.\<close>

fun many1 :: "(char \<Rightarrow> bool) \<Rightarrow> string \<Rightarrow> string list" where
  "many1 p [] = []"
| "many1 p (c # cs) = (if p c then many1 p cs @ [cs] else [])"

text \<open>\<open>r{lo,hi}\<close>, given the matcher of \<open>r\<close>.\<close>

fun rep :: "(string \<Rightarrow> string list) \<Rightarrow> nat \<Rightarrow> nat \<Rightarrow> string \<Rightarrow> string list" where
  "rep f lo 0 s = (if lo = 0 then [s] else [])"
| "rep f lo (Suc hi) s =
     concat (map (rep f (lo - 1) hi) (f s)) @ (if lo = 0 then [s] else [])"

fun rx_match :: "rx \<Rightarrow> string \<Rightarrow> string list" where
  "rx_match (Cls p) s = (case s of [] \<Rightarrow> [] | c # cs \<Rightarrow> if p c then [cs] else [])"
| "rx_match (Seq a b) s = concat (map (rx_match b) (rx_match a s))"
| "rx_match (Alt a b) s = rx_match a s @ rx_match b s"
| "rx_match (Rep lo hi r) s = rep (rx_match r) lo hi s"
| "rx_match (Many1 p) s = many1 p s"

definition Ch :: "char \<Rightarrow> rx" where
  "Ch c = Cls (\<lambda>x. x = c)"

definition Lit :: "string \<Rightarrow> rx list" where
  "Lit s = map Ch s"

text \<open>A literal under \<open>re.IGNORECASE\<close> (the literals used are upper case).\<close>

definition LitI :: "string \<Rightarrow> rx list" where
  "LitI s = map (\<lambda>c. Cls (\<lambda>x. upper_char x = c)) s"

definition Opt :: "rx \<Rightarrow> rx" where
  "Opt r = Rep 0 1 r"

fun Seqs :: "rx list \<Rightarrow> rx" where
  "Seqs [] = Rep 0 0 (Cls (\<lambda>c. False))"
| "Seqs [r] = r"
| "Seqs (r # rs) = Seq r (Seqs rs)"

text \<open>\<open>bool(re.fullmatch(r, s))\<close> and \<open>bool(re.match(r, s))\<close>\<close>

definition rx_fullmatch :: "rx \<Rightarrow> string \<Rightarrow> bool" where
  "rx_fullmatch r s = ([] \<in> set (rx_match r s))"

definition rx_matches :: "rx \<Rightarrow> string \<Rightarrow> bool" where
  "rx_matches r s = (rx_match r s \<noteq> [])"

text \<open>
  \<open>re.search(r, s)\<close>: the leftmost position where \<open>r\<close> matches, as the pair of
  \<open>m.start()\<close> and \<open>m.group(0)\<close>.
\<close>

fun rx_search_from :: "rx \<Rightarrow> nat \<Rightarrow> string \<Rightarrow> (nat \<times> string) option" where
  "rx_search_from r i [] =
     (case rx_match r [] of [] \<Rightarrow> None | rest # _ \<Rightarrow> Some (i, []))"
| "rx_search_from r i (c # cs) =
     (case rx_match r (c # cs) of
        [] \<Rightarrow> rx_search_from r (Suc i) cs
      | rest # _ \<Rightarrow> Some (i, take (length (c # cs) - length rest) (c # cs)))"

definition rx_search :: "rx \<Rightarrow> string \<Rightarrow> (nat \<times> string) option" where
  "rx_search r s = rx_search_from r 0 s"

text \<open>
  \<open>re.sub(r, f, s)\<close> for a pattern that matches no empty string: every leftmost match,
  without overlap, is replaced by \<open>f\<close> of the matched text.
\<close>

function rx_sub :: "rx \<Rightarrow> (string \<Rightarrow> string) \<Rightarrow> string \<Rightarrow> string" where
  "rx_sub r f [] = []"
| "rx_sub r f (c # cs) =
     (case rx_match r (c # cs) of
        [] \<Rightarrow> c # rx_sub r f cs
      | rest # _ \<Rightarrow>
          if length rest < length (c # cs)
          then f (take (length (c # cs) - length rest) (c # cs)) @ rx_sub r f rest
          else c # rx_sub r f cs)"
  by pat_completeness auto
termination
  by (relation "measure (\<lambda>(r, f, s). length s)") auto

section \<open>Constants of the parser\<close>

text \<open>\<open>DATE_PATTERN = ([A-Za-z]+ \d{1,2}, \d{4})\<close>\<close>

definition DATE_PATTERN :: rx where
  "DATE_PATTERN = Seqs [Many1 is_alpha, Ch CHR '' '', Rep 1 2 (Cls is_digit),
                        Ch CHR '','', Ch CHR '' '', Rep 4 4 (Cls is_digit)]"

definition DAY_NAMES :: "string list" where
  "DAY_NAMES = [''Monday'', ''Tuesday'', ''Wednesday'', ''Thursday'', ''Friday'',
                ''Saturday'', ''Sunday'']"

definition DAY_NAMES_UPPER :: "string set" where
  "DAY_NAMES_UPPER = set (map str_upper DAY_NAMES)"

text \<open>\<open>DIGITS_ONLY_PATTERN = ^[0-9]+$\<close>, used with \<open>fullmatch\<close> only.\<close>

definition DIGITS_ONLY_PATTERN :: rx where
  "DIGITS_ONLY_PATTERN = Many1 is_digit"

definition TIME_COLUMN_X_THRESHOLD :: rat where
  "TIME_COLUMN_X_THRESHOLD = 70"

definition INDENT_NEW_EVENT_THRESHOLD :: rat where
  "INDENT_NEW_EVENT_THRESHOLD = 25"

definition NOISE_SEGMENTS :: "string set" where
  "NOISE_SEGMENTS = {''BOI BOI''}"

definition SPECIAL_SPLIT_MARKERS :: "string list" where
  "SPECIAL_SPLIT_MARKERS = [''CHIEF'' @ [CHR 0x27] @ ''S CONFERENCE'', ''CHIEFS CONFERENCE'']"

definition LOCATION_HINTS :: "string list" where
  "LOCATION_HINTS = [''MICROSOFT TEAMS'', ''IN PERSON'', ''TELECONFERENCE'', ''ZOOM'',
     ''BOI'', ''ANC'', ''JNU'', ''ROOM'', ''CONF'', ''SUITE'', ''FLOOR'', ''OFFICE'',
     ''BUILDING'', ''CAPITOL'', ''ANCHORAGE'', ''JUNEAU'', ''PALMER'', ''FAIRBANKS'',
     ''TEAMS'']"

definition FORCED_EVENT_PREFIXES :: "string list" where
  "FORCED_EVENT_PREFIXES = [''CHECK IN'', ''STATEHOOD'', ''OP-ED'', ''OP ED'',
     ''WORK ON LIST'', ''UPDATE'', ''CHIEF'' @ [CHR 0x27] @ ''S CONFERENCE'']"

definition PERSON_HINTS :: "string list" where
  "PERSON_HINTS = [''GOV)'', ''LAW)'', ''DNR)'', ''DOL)'', ''DOC)'', ''DEC)'', ''DOT)'',
     ''EDU)'', ''JUD)'', ''LEG)'']"

text \<open>
  The pattern of a capitalised name, used by \<open>should_force_new_event\<close> and
  \<open>is_person_segment\<close>:
  \<open>[A-Z][a-z]+(?: [A-Z][a-z]+){0,2}(?: [A-Z]\.)?(?: \(.+\))?\<close>
\<close>

definition NAME_SHAPE :: rx where
  "NAME_SHAPE = Seqs [Cls is_upper, Many1 is_lower,
     Rep 0 2 (Seqs [Ch CHR '' '', Cls is_upper, Many1 is_lower]),
     Opt (Seqs [Ch CHR '' '', Cls is_upper, Ch CHR ''.'']),
     Opt (Seqs [Ch CHR '' '', Ch CHR ''('', Many1 (\<lambda>c. c \<noteq> CHR 0x0A), Ch CHR '')''])]"

text \<open>\<open>^\d{1,2}[:.]\d{2}\<close> and \<open>^\d{1,2}\s?(AM|PM)\<close>\<close>

definition CLOCK_TIME :: rx where
  "CLOCK_TIME = Seqs [Rep 1 2 (Cls is_digit), Cls (\<lambda>c. c \<in> set '':.''),
                      Rep 2 2 (Cls is_digit)]"

definition AM_PM_TIME :: rx where
  "AM_PM_TIME = Seqs [Rep 1 2 (Cls is_digit), Opt (Cls is_space),
                      Alt (Seqs (Lit ''AM'')) (Seqs (Lit ''PM''))]"

text \<open>The keywords of the meeting-type rule of \<open>should_force_new_event\<close>.\<close>

definition MEETING_TYPE_KEYWORDS :: "string list" where
  "MEETING_TYPE_KEYWORDS = [''MTG:'', ''HEARING'', ''BRIEFING'', ''INTERVIEW'', ''DEFENSE'',
     ''REVIEW'', ''PRESS CONFERENCE'']"

section \<open>Segment classifier\<close>

definition segment_has_digits :: "string \<Rightarrow> bool" where
  "segment_has_digits text = list_ex is_digit text"

definition is_location_segment :: "string \<Rightarrow> bool" where
  "is_location_segment segment =
     (let cleaned = str_strip segment in
      if cleaned = [] then False
      else let upper = str_upper cleaned in
        if contains upper ''TELECONFERENCE'' then True
        else if contains upper (''CHIEF'' @ [CHR 0x27] @ ''S CONFERENCE'') then False
        else if contains upper ''CONFERENCE'' \<and> \<not> contains upper ''ROOM''
                \<and> \<not> contains upper ''CENTER'' \<and> \<not> contains upper ''CALL''
                \<and> \<not> contains upper ''LINE'' then False
        else contains_any upper LOCATION_HINTS)"

text \<open>\<open>part[0].isalpha()\<close> for a non-empty \<open>part\<close>.\<close>

definition first_is_alpha :: "string \<Rightarrow> bool" where
  "first_is_alpha part = (case part of [] \<Rightarrow> False | c # _ \<Rightarrow> is_alpha c)"

definition is_person_segment :: "string \<Rightarrow> bool" where
  "is_person_segment segment =
     (let cleaned = str_strip segment in
      if cleaned = [] then False
      else let upper = str_upper cleaned in
        if startswith upper ''PH:'' then False
        else if contains upper ''TELECONFERENCE'' then False
        else if is_location_segment segment then False
        else if startswith upper ''MTG:'' then False
        else if contains_any upper [''STATEHOOD'', ''DEFENSE'', ''MEETING'', ''CONFERENCE'',
                                    ''CABINET'', ''BRIEFING''] then False
        else if contains cleaned '','' \<and> \<not> segment_has_digits cleaned
                \<and> (let parts = map str_strip
                                   (filter (\<lambda>part. str_strip part \<noteq> [])
                                      (split_char CHR '','' cleaned))
                    in parts \<noteq> [] \<and> list_ex first_is_alpha parts) then True
        else if rx_fullmatch NAME_SHAPE cleaned then True
        else contains_any upper PERSON_HINTS)"

text \<open>
  The title test of the meeting-type rule: the words of the segment, the number of them
  that start with a capital letter, and the bound on both.
\<close>

definition first_is_capital :: "string \<Rightarrow> bool" where
  "first_is_capital w = (case w of [] \<Rightarrow> False | c # _ \<Rightarrow> is_alpha c \<and> is_upper c)"

definition title_like :: "string \<Rightarrow> bool" where
  "title_like cleaned =
     (let words = filter (\<lambda>w. w \<noteq> []) (split_ws cleaned);
          capitalized = length (filter first_is_capital words)
      in 1 < length words \<and> length words \<le> 8 \<and> capitalized \<ge> length words - 1)"

definition should_force_new_event :: "string \<Rightarrow> string list \<Rightarrow> bool" where
  "should_force_new_event segment current_segments =
     (let cleaned = str_strip segment in
      if cleaned = [] then False
      else let upper = str_upper cleaned in
        if startswith upper ''PH:'' then False
        else if contains upper ''TELECONFERENCE'' then False
        else if is_location_segment segment then False
        else if rx_fullmatch NAME_SHAPE cleaned then True
        else if contains_any upper PERSON_HINTS then False
        else if rx_matches CLOCK_TIME cleaned then True
        else if rx_matches AM_PM_TIME upper then True
        else if startswith_any upper FORCED_EVENT_PREFIXES then True
        else if contains_any upper MEETING_TYPE_KEYWORDS then
          (if \<not> contains_any upper LOCATION_HINTS then True
           else if title_like cleaned \<and> \<not> contains_any upper LOCATION_HINTS then True
           else False)
        else False)"

section \<open>Words, lines and the page header\<close>

text \<open>
  A word as \<open>pdfplumber\<close> extracts it (the keys of the dictionary that the program
  reads), and a line as \<open>build_lines\<close> makes it. Positions are exact rationals.
\<close>

record word =
  word_text :: string
  word_x0 :: rat
  word_fontname :: "string option"

record line =
  line_text :: string
  line_x0 :: rat
  line_words :: "word list"

text \<open>
  \<open>build_lines\<close>, from the clusters that \<open>cluster_objects(words, 'top', 3)\<close> returns
  (a function of the library, not of this program).
\<close>

fun build_lines_of :: "word list list \<Rightarrow> line list" where
  "build_lines_of [] = []"
| "build_lines_of (cluster # clusters) =
     (let cluster_sorted = sort_key word_x0 cluster;
          text = str_strip (str_join '' '' (map word_text cluster_sorted))
      in if text = [] then build_lines_of clusters
         else \<lparr>line_text = text, line_x0 = min_list (map word_x0 cluster_sorted),
               line_words = cluster_sorted\<rparr> # build_lines_of clusters)"

definition build_lines :: "(word list \<Rightarrow> word list list) \<Rightarrow> word list \<Rightarrow> line list" where
  "build_lines cluster_objects words = build_lines_of (cluster_objects words)"

record date =
  year :: nat
  month :: nat
  day :: nat

text \<open>
  \<open>extract_date\<close>. The parser \<open>datetime.strptime(_, '%B %d, %Y')\<close> belongs to the
  library and is a parameter: it returns \<open>None\<close> where the library raises
  \<open>ValueError\<close>. The pattern is one group, so \<open>match.group(1)\<close> is the matched text.
\<close>

fun extract_date :: "(string \<Rightarrow> date option) \<Rightarrow> line list \<Rightarrow> date option" where
  "extract_date strptime [] = None"
| "extract_date strptime (line # lines) =
     (case rx_search DATE_PATTERN (line_text line) of
        None \<Rightarrow> extract_date strptime lines
      | Some (start, group1) \<Rightarrow>
          (case strptime group1 of
             Some d \<Rightarrow> Some d
           | None \<Rightarrow> extract_date strptime lines))"

definition is_day_line :: "line \<Rightarrow> bool" where
  "is_day_line line = (str_upper (str_strip (line_text line)) \<in> DAY_NAMES_UPPER)"

fun find_day_from :: "nat \<Rightarrow> line list \<Rightarrow> nat option" where
  "find_day_from idx [] = None"
| "find_day_from idx (line # lines) =
     (if is_day_line line then Some idx else find_day_from (Suc idx) lines)"

definition find_day_line_index :: "line list \<Rightarrow> nat option" where
  "find_day_line_index lines = find_day_from 0 lines"

section \<open>Event segmenter\<close>

definition marker_pattern :: "string \<Rightarrow> rx" where
  "marker_pattern marker = Seqs (Many1 is_space # LitI marker)"

definition split_event_text :: "string \<Rightarrow> string list" where
  "split_event_text event_text =
     (if event_text = [] then []
      else let normalized = str_replace '' PH:'' '';PH:'' event_text;
               normalized = fold (\<lambda>marker n.
                               rx_sub (marker_pattern marker) (\<lambda>m. ''; '' @ str_strip m) n)
                             SPECIAL_SPLIT_MARKERS normalized;
               parts = map str_strip (split_char CHR '';'' normalized)
           in filter (\<lambda>part. part \<noteq> [] \<and> str_upper part \<notin> NOISE_SEGMENTS) parts)"

definition is_bold_word :: "word \<Rightarrow> bool" where
  "is_bold_word w =
     (let font_name = str_upper (case word_fontname w of None \<Rightarrow> [] | Some f \<Rightarrow> f)
      in contains font_name ''BOLD'' \<or> contains font_name ''BD''
         \<or> contains font_name ''BLACK'')"

text \<open>The variables of \<open>merge_events\<close> that its loop and \<open>flush_current\<close> update.\<close>

record seg_state =
  events :: "string list list"
  current_segments :: "string list"
  pending_new_event :: bool
  current_event_x0 :: "rat option"
  pending_location_segments :: "string list"

definition flush_current :: "seg_state \<Rightarrow> seg_state" where
  "flush_current st =
     st\<lparr>events := (if current_segments st \<noteq> [] then events st @ [current_segments st]
                   else events st),
        current_segments := [],
        pending_new_event := True,
        current_event_x0 := None\<rparr>"

text \<open>
  \<open>if pending_location_segments: current_segments.extend(pending_location_segments);
  pending_location_segments.clear()\<close>
\<close>

definition take_pending :: "seg_state \<Rightarrow> seg_state" where
  "take_pending st =
     (if pending_location_segments st \<noteq> []
      then st\<lparr>current_segments := current_segments st @ pending_location_segments st,
              pending_location_segments := []\<rparr>
      else st)"

text \<open>\<open>if event_x0 is not None and current_event_x0 is None: current_event_x0 = event_x0\<close>\<close>

definition note_x0 :: "rat option \<Rightarrow> seg_state \<Rightarrow> seg_state" where
  "note_x0 event_x0 st =
     (if event_x0 \<noteq> None \<and> current_event_x0 st = None
      then st\<lparr>current_event_x0 := event_x0\<rparr> else st)"

text \<open>The branch of a line that has words in the time column.\<close>

definition merge_timed :: "seg_state \<Rightarrow> string list \<Rightarrow> rat option \<Rightarrow> seg_state" where
  "merge_timed st segments event_x0 =
     (if segments \<noteq> [] \<and> \<not> pending_new_event st \<and> current_segments st \<noteq> []
         \<and> list_all is_person_segment segments
      then note_x0 event_x0 (st\<lparr>current_segments := current_segments st @ segments\<rparr>)
      else let st = take_pending (flush_current st)
           in if segments \<noteq> []
              then st\<lparr>current_segments := current_segments st @ segments,
                      pending_new_event := False,
                      current_event_x0 := event_x0\<rparr>
              else st\<lparr>pending_new_event := True, current_event_x0 := None\<rparr>)"

text \<open>
  The index of the first segment after the first that starts with \<open>PH:\<close> or with a
  special marker.
\<close>

definition starts_split :: "string \<Rightarrow> bool" where
  "starts_split seg =
     (let upper_seg = str_upper seg
      in startswith upper_seg ''PH:'' \<or> startswith_any upper_seg SPECIAL_SPLIT_MARKERS)"

fun find_split_from :: "nat \<Rightarrow> string list \<Rightarrow> nat option" where
  "find_split_from idx [] = None"
| "find_split_from idx (seg # segs) =
     (if idx = 0 then find_split_from (Suc idx) segs
      else if starts_split seg then Some idx
      else find_split_from (Suc idx) segs)"

definition resplit :: "rat option \<Rightarrow> seg_state \<Rightarrow> seg_state" where
  "resplit event_x0 st =
     (case find_split_from 0 (current_segments st) of
        None \<Rightarrow> st
      | Some split_index \<Rightarrow>
          let trailing = drop split_index (current_segments st);
              st = flush_current (st\<lparr>current_segments := take split_index (current_segments st)\<rparr>);
              st = st\<lparr>current_segments := current_segments st @ trailing,
                      pending_new_event := False\<rparr>
          in if event_x0 \<noteq> None then st\<lparr>current_event_x0 := event_x0\<rparr> else st)"

definition track_x0 :: "rat option \<Rightarrow> seg_state \<Rightarrow> seg_state" where
  "track_x0 event_x0 st =
     (case event_x0 of
        None \<Rightarrow> st
      | Some e \<Rightarrow>
          (case current_event_x0 st of
             None \<Rightarrow> st\<lparr>current_event_x0 := Some e\<rparr>
           | Some c \<Rightarrow> st\<lparr>current_event_x0 := Some (min c e)\<rparr>))"

definition indent_trigger :: "rat option \<Rightarrow> rat option \<Rightarrow> bool" where
  "indent_trigger event_x0 current_x0 =
     (case (event_x0, current_x0) of
        (Some e, Some c) \<Rightarrow> e - c > INDENT_NEW_EVENT_THRESHOLD
      | _ \<Rightarrow> False)"

text \<open>
  The branch of a line without words in the time column and with segments: the loop
  leaves a line with no segment before it reads \<open>segments[0]\<close>.
\<close>

definition merge_untimed ::
  "seg_state \<Rightarrow> string list \<Rightarrow> rat option \<Rightarrow> bool \<Rightarrow> seg_state" where
  "merge_untimed st segments event_x0 line_is_bold =
     (let all_person = list_all is_person_segment segments;
          all_location = list_all is_location_segment segments
      in if all_location \<and> current_segments st \<noteq> []
         then note_x0 event_x0 (st\<lparr>current_segments := current_segments st @ segments\<rparr>)
         else if all_person \<and> current_segments st \<noteq> []
         then st\<lparr>current_segments := current_segments st @ segments\<rparr>
         else if all_location \<and> current_segments st = []
         then note_x0 event_x0
                (st\<lparr>pending_location_segments := pending_location_segments st @ segments\<rparr>)
         else
           let primary_segment = hd segments;
               forced_new =
                 (if current_segments st \<noteq> [] then
                    (if indent_trigger event_x0 (current_event_x0 st) \<and> \<not> all_person then True
                     else if \<not> all_person
                             \<and> should_force_new_event primary_segment (current_segments st)
                     then True
                     else if line_is_bold \<and> \<not> all_person
                             \<and> \<not> is_location_segment primary_segment
                     then True
                     else False)
                  else False);
               st = (if forced_new then take_pending (flush_current st) else st);
               st = (if pending_new_event st \<and> current_segments st = []
                     then st\<lparr>pending_new_event := False\<rparr> else st);
               st = (if current_segments st = [] \<and> pending_location_segments st \<noteq> []
                     then take_pending st else st);
               st = st\<lparr>current_segments := current_segments st @ segments\<rparr>
           in track_x0 event_x0 (resplit event_x0 st))"

text \<open>
  One round of the loop over \<open>lines[start_index:]\<close>: \<open>None\<close> is \<open>break\<close>, and
  \<open>continue\<close> hands the state on.
\<close>

definition is_region_end :: "line \<Rightarrow> bool" where
  "is_region_end line =
     (let text = str_strip (line_text line) in
      text \<noteq> [] \<and>
      (str_upper text \<in> DAY_NAMES_UPPER
       \<or> rx_search DATE_PATTERN text \<noteq> None
       \<or> (rx_fullmatch DIGITS_ONLY_PATTERN text \<and> line_x0 line > 200)))"

definition merge_line :: "seg_state \<Rightarrow> line \<Rightarrow> seg_state option" where
  "merge_line st line =
     (let text = str_strip (line_text line) in
      if text = [] then Some st
      else if str_upper text \<in> DAY_NAMES_UPPER then None
      else if rx_search DATE_PATTERN text \<noteq> None then None
      else if rx_fullmatch DIGITS_ONLY_PATTERN text \<and> line_x0 line > 200 then None
      else
        let time_words = filter (\<lambda>w. word_x0 w \<le> TIME_COLUMN_X_THRESHOLD) (line_words line);
            event_words = filter (\<lambda>w. word_x0 w > TIME_COLUMN_X_THRESHOLD) (line_words line);
            event_text = str_strip (str_join '' '' (map word_text event_words));
            segments = split_event_text event_text;
            event_x0 = (if event_words = [] then None
                        else Some (min_list (map word_x0 event_words)));
            line_is_bold = list_ex is_bold_word (take 3 event_words)
        in if time_words \<noteq> [] then Some (merge_timed st segments event_x0)
           else if segments = [] then Some st
           else Some (merge_untimed st segments event_x0 line_is_bold))"

fun merge_loop :: "seg_state \<Rightarrow> line list \<Rightarrow> seg_state" where
  "merge_loop st [] = st"
| "merge_loop st (line # lines) =
     (case merge_line st line of
        None \<Rightarrow> st
      | Some st' \<Rightarrow> merge_loop st' lines)"

text \<open>The code after the loop: the pending location segments find a home or are dropped.\<close>

definition merge_finish :: "seg_state \<Rightarrow> string list list" where
  "merge_finish st =
     (let st = (if pending_location_segments st \<noteq> [] then
                  (if current_segments st \<noteq> []
                   then st\<lparr>current_segments := current_segments st @ pending_location_segments st,
                           pending_location_segments := []\<rparr>
                   else if events st \<noteq> []
                   then st\<lparr>events := butlast (events st)
                                       @ [last (events st) @ pending_location_segments st],
                           pending_location_segments := []\<rparr>
                   else st\<lparr>pending_location_segments := []\<rparr>)
                else st)
      in events (flush_current st))"

definition initial_state :: seg_state where
  "initial_state = \<lparr>events = [], current_segments = [], pending_new_event = True,
                     current_event_x0 = None, pending_location_segments = []\<rparr>"

definition merge_events :: "line list \<Rightarrow> nat \<Rightarrow> string list list" where
  "merge_events lines start_index = merge_finish (merge_loop initial_state (drop start_index lines))"

section \<open>Field formatter\<close>

datatype py_error = IndexError

text \<open>
  \<open>text.split('PH:', 1)[1]\<close>: what follows the first \<open>PH:\<close>, and \<open>IndexError\<close> when the
  text has none.
\<close>

fun after_first :: "string \<Rightarrow> string \<Rightarrow> string option" where
  "after_first sub [] = None"
| "after_first sub (c # cs) =
     (if prefix sub (c # cs) then Some (drop (length sub) (c # cs)) else after_first sub cs)"

definition clean_meeting_place :: "string \<Rightarrow> py_error + string" where
  "clean_meeting_place text =
     (let cleaned = str_strip text in
      if startswith (str_upper cleaned) ''PH:''
      then (case after_first ''PH:'' cleaned of
              None \<Rightarrow> Inl IndexError
            | Some rest \<Rightarrow> Inr (str_strip rest))
      else Inr cleaned)"

text \<open>\<open>re.sub(r'\s+', ' ', value.upper()).strip(' ;')\<close>\<close>

definition normalize_for_compare :: "string \<Rightarrow> string" where
  "normalize_for_compare v = strip_space_semi (rx_sub (Many1 is_space) (\<lambda>m. '' '') (str_upper v))"

text \<open>\<open>should_skip_segment\<close> reads the \<open>field1\<close> of the moment of the call.\<close>

definition should_skip_segment :: "string \<Rightarrow> string \<Rightarrow> bool" where
  "should_skip_segment field1 v =
     (let upper = strip_space_semi (str_upper v);
          field_norm = normalize_for_compare field1
      in upper = field_norm \<or> endswith field_norm upper)"

text \<open>\<open>[A-Z][a-z]+,\s+[A-Z]\<close>\<close>

definition EMBEDDED_NAME :: rx where
  "EMBEDDED_NAME = Seqs [Cls is_upper, Many1 is_lower, Ch CHR '','', Many1 is_space,
                         Cls is_upper]"

text \<open>
  The first loop of \<open>format_event_segments\<close>, over \<open>rest_raw\<close>, with the \<open>field1\<close> and
  the \<open>processed_rest\<close> it builds.
\<close>

fun process_rest :: "string \<Rightarrow> string list \<Rightarrow> string list \<Rightarrow> string \<times> string list" where
  "process_rest field1 processed_rest [] = (field1, processed_rest)"
| "process_rest field1 processed_rest (segment # rest_raw) =
     (if segment = [] then process_rest field1 processed_rest rest_raw
      else if startswith (str_upper segment) ''PH:''
      then process_rest (str_strip (field1 @ '' '' @ segment)) processed_rest rest_raw
      else if should_skip_segment field1 segment
      then process_rest field1 processed_rest rest_raw
      else (case rx_search EMBEDDED_NAME segment of
              None \<Rightarrow> process_rest field1 (processed_rest @ [segment]) rest_raw
            | Some (start, matched) \<Rightarrow>
                if start > 0 then
                  let before_part = strip_space_semi (take start segment);
                      after_part = str_strip (drop start segment)
                  in process_rest field1
                       (processed_rest @ (if before_part \<noteq> [] then [before_part] else [])
                                       @ (if after_part \<noteq> [] then [after_part] else []))
                       rest_raw
                else process_rest field1 (processed_rest @ [segment]) rest_raw))"

text \<open>\<open>'; '.join(part.strip() for part in parts if part.strip())\<close>\<close>

definition join_parts :: "string list \<Rightarrow> string" where
  "join_parts parts =
     str_join ''; '' (map str_strip (filter (\<lambda>part. str_strip part \<noteq> []) parts))"

definition format_event_segments :: "string list \<Rightarrow> py_error + (string \<times> string \<times> string)" where
  "format_event_segments segments =
     (case segments of
        [] \<Rightarrow> Inr ([], [], [])
      | seg0 # others \<Rightarrow>
          let rest_raw = map str_strip
                           (filter (\<lambda>seg. seg \<noteq> [] \<and> str_strip seg \<noteq> []) others);
              (field1, processed_rest) = process_rest (str_strip seg0) [] rest_raw;
              processed_rest = filter (\<lambda>segment. segment \<noteq> []) processed_rest;
              person_parts = filter is_person_segment processed_rest;
              meeting_parts = filter (\<lambda>segment. \<not> is_person_segment segment) processed_rest;
              field_upper = str_upper field1;
              (meeting_parts, person_parts) =
                (if contains field_upper ''PH: INTERVIEW'' then
                   (if meeting_parts \<noteq> [] then ([], meeting_parts @ person_parts)
                    else (meeting_parts, person_parts))
                 else if startswith field_upper ''PH:'' \<and> meeting_parts = []
                         \<and> person_parts \<noteq> []
                 then (person_parts, [])
                 else if startswith field_upper ''MTG:'' \<and> meeting_parts = []
                         \<and> person_parts \<noteq> []
                 then (person_parts, [])
                 else (meeting_parts, person_parts))
          in (case clean_meeting_place (join_parts meeting_parts) of
                Inl e \<Rightarrow> Inl e
              | Inr meeting_place \<Rightarrow> Inr (field1, meeting_place, join_parts person_parts)))"

section \<open>Extraction driver\<close>

text \<open>\<open>date.isoformat()\<close>, for the years 1 to 9999 of a Python date.\<close>

definition digit_char :: "nat \<Rightarrow> char" where
  "digit_char n = ''0123456789'' ! (n mod 10)"

definition isoformat :: "date \<Rightarrow> string" where
  "isoformat d =
     [digit_char (year d div 1000), digit_char (year d div 100), digit_char (year d div 10),
      digit_char (year d)] @ ''-'' @
     [digit_char (month d div 10), digit_char (month d)] @ ''-'' @
     [digit_char (day d div 10), digit_char (day d)]"

text \<open>
  What a generator has yielded, and the exception that ended it, if one did. A record is
  the tuple \<open>(date, event_name, meeting_place, person)\<close>.
\<close>

type_synonym row = "string \<times> string \<times> string \<times> string"

type_synonym yielded = "row list \<times> py_error option"

text \<open>The loop \<open>for event_segments in events\<close> of a page.\<close>

fun yield_events :: "string \<Rightarrow> string list list \<Rightarrow> yielded" where
  "yield_events d [] = ([], None)"
| "yield_events d (event_segments # more_events) =
     (case format_event_segments event_segments of
        Inl e \<Rightarrow> ([], Some e)
      | Inr (event_name, meeting_place, person) \<Rightarrow>
          (let (rows, err) = yield_events d more_events
           in ((d, event_name, meeting_place, person) # rows, err)))"

text \<open>The body of the loop over the pages, from the lines of the page on.\<close>

definition page_records :: "(string \<Rightarrow> date option) \<Rightarrow> line list \<Rightarrow> yielded" where
  "page_records strptime lines =
     (case extract_date strptime lines of
        None \<Rightarrow> ([], None)
      | Some date_obj \<Rightarrow>
          (case find_day_line_index lines of
             None \<Rightarrow> ([], None)
           | Some day_idx \<Rightarrow>
               let schedule_start = day_idx + 2;
                   found = merge_events lines schedule_start
               in if found = [] then ([(isoformat date_obj, [], [], [])], None)
                  else yield_events (isoformat date_obj) found))"

text \<open>
  \<open>extract_events\<close> over the words of the pages of a document; \<open>cluster_objects\<close> and
  \<open>strptime\<close> are the library's.
\<close>

fun extract_events ::
  "(string \<Rightarrow> date option) \<Rightarrow> (word list \<Rightarrow> word list list) \<Rightarrow> word list list \<Rightarrow> yielded" where
  "extract_events strptime cluster_objects [] = ([], None)"
| "extract_events strptime cluster_objects (words # pages) =
     (if words = [] then extract_events strptime cluster_objects pages
      else (case page_records strptime (build_lines cluster_objects words) of
              (rows, Some e) \<Rightarrow> (rows, Some e)
            | (rows, None) \<Rightarrow>
                (let (rows', err) = extract_events strptime cluster_objects pages
                 in (rows @ rows', err))))"

text \<open>
  A model of \<open>datetime.strptime(s, '%B %d, %Y').date()\<close> in the C locale, for the
  examples: the month by its English name in any case, the day with one or two digits,
  the year with four, and a date that exists in the calendar.
\<close>

definition MONTH_NAMES :: "string list" where
  "MONTH_NAMES = [''JANUARY'', ''FEBRUARY'', ''MARCH'', ''APRIL'', ''MAY'', ''JUNE'', ''JULY'',
     ''AUGUST'', ''SEPTEMBER'', ''OCTOBER'', ''NOVEMBER'', ''DECEMBER'']"

fun index_of :: "string \<Rightarrow> string list \<Rightarrow> nat option" where
  "index_of x [] = None"
| "index_of x (y # ys) = (if x = y then Some 0 else map_option Suc (index_of x ys))"

definition digit_val :: "char \<Rightarrow> nat" where
  "digit_val c = (case index_of [c] (map (\<lambda>d. [d]) ''0123456789'') of None \<Rightarrow> 0 | Some n \<Rightarrow> n)"

definition number_of :: "string \<Rightarrow> nat" where
  "number_of ds = fold (\<lambda>c n. 10 * n + digit_val c) ds 0"

definition is_leap :: "nat \<Rightarrow> bool" where
  "is_leap y = (y mod 4 = 0 \<and> (y mod 100 \<noteq> 0 \<or> y mod 400 = 0))"

definition days_in_month :: "nat \<Rightarrow> nat \<Rightarrow> nat" where
  "days_in_month y m =
     (if m = 2 then (if is_leap y then 29 else 28)
      else if m \<in> {4, 6, 9, 11} then 30 else 31)"

definition strptime_B_d_Y :: "string \<Rightarrow> date option" where
  "strptime_B_d_Y s =
     (let name = takeWhile is_alpha s;
          rest = dropWhile is_alpha s;
          ws = takeWhile is_space rest;
          rest = dropWhile is_space rest;
          ds = takeWhile is_digit rest;
          rest = dropWhile is_digit rest;
          ws' = takeWhile is_space (drop 1 rest);
          ys = dropWhile is_space (drop 1 rest)
      in case index_of (str_upper name) MONTH_NAMES of
           None \<Rightarrow> None
         | Some m \<Rightarrow>
             if ws \<noteq> [] \<and> (length ds = 1 \<or> length ds = 2) \<and> take 1 rest = '',''
                \<and> ws' \<noteq> [] \<and> length ys = 4 \<and> list_all is_digit ys
                \<and> 1 \<le> number_of ds \<and> number_of ds \<le> days_in_month (number_of ys) (Suc m)
                \<and> 1 \<le> number_of ys
             then Some \<lparr>year = number_of ys, month = Suc m, day = number_of ds\<rparr>
             else None)"

section \<open>Example pages\<close>

definition plain_word :: "string \<Rightarrow> rat \<Rightarrow> word" where
  "plain_word t x = \<lparr>word_text = t, word_x0 = x, word_fontname = None\<rparr>"

text \<open>A line of one word.\<close>

definition text_line :: "string \<Rightarrow> rat \<Rightarrow> line" where
  "text_line t x = \<lparr>line_text = t, line_x0 = x, line_words = [plain_word t x]\<rparr>"

text \<open>A page with its date, its day and the header of the table, and no entry.\<close>

definition empty_page :: "line list" where
  "empty_page = [text_line ''September 5, 2023'' 100, text_line '' tuesday '' 50,
                 text_line ''Time Event'' 50]"

text \<open>
  A page with three entries, a page number at the right and a line after it. The first
  line has a date that does not parse before the date of the page.
\<close>

definition sample_page :: "line list" where
  "sample_page = build_lines_of
     [[plain_word ''Printed'' 50, plain_word ''Smarch 1, 2023'' 100],
      [plain_word ''Agenda for September 5, 2023 (draft)'' 100],
      [plain_word ''Tuesday'' 50],
      [plain_word ''Time'' 50, plain_word ''Event'' 100],
      [plain_word ''9:00'' 50, plain_word ''AM'' 60, plain_word ''Jane'' 100,
       plain_word ''Smith'' 120, plain_word ''(DNR);'' 140, plain_word ''Conference'' 160,
       plain_word ''Room'' 180, plain_word ''400'' 200],
      [plain_word ''MTG:'' 100, plain_word ''Budget'' 120, plain_word ''PH:'' 140,
       plain_word ''John'' 160],
      [plain_word ''12'' 300],
      [plain_word ''1:00'' 50, plain_word ''Lunch'' 100]]"

section \<open>Invariant of the segmenter\<close>

text \<open>
  A segment is solid when trimming leaves something of it and it has no semicolon, as
  the pieces that \<open>split_event_text\<close> keeps. The invariant of the loop of
  \<open>merge_events\<close>: the finished events are non-empty lists of solid segments, and
  the segments of the open event and the pending location segments are solid.
\<close>

definition solid :: "string list \<Rightarrow> bool" where
  "solid segs = (\<forall>x\<in>set segs. str_strip x \<noteq> [] \<and> CHR '';'' \<notin> set x)"

text \<open>A piece that, trimmed, does not start with \<open>PH:\<close> in any case.\<close>

definition no_phone :: "string \<Rightarrow> bool" where
  "no_phone x = (\<not> startswith (str_upper (str_strip x)) ''PH:'')"

definition state_ok :: "seg_state \<Rightarrow> bool" where
  "state_ok st = ((\<forall>e\<in>set (events st). e \<noteq> [] \<and> solid e)
                  \<and> solid (current_segments st)
                  \<and> solid (pending_location_segments st))"

section \<open>Properties of the classifier\<close>

lemma day_names_upper: "DAY_NAMES_UPPER = {''MONDAY'', ''TUESDAY'', ''WEDNESDAY'', ''THURSDAY'', ''FRIDAY'', ''SATURDAY'', ''SUNDAY''}"
  by (simp add: DAY_NAMES_UPPER_def DAY_NAMES_def str_upper_def upper_char_def lower_letters_def upper_letters_def insert_commute)


text \<open>
  C1: no segment is both a location segment and a person segment:
  \<open>is_location_segment\<close> and \<open>is_person_segment\<close> are never both true.
\<close>

theorem classifiers_exclusive: "\<not> (is_location_segment s \<and> is_person_segment s)"
  by (simp add: is_person_segment_def Let_def)

theorem classifiers_exclusive_witness:
  "is_location_segment ''Conference Room 400'' \<and> \<not> is_person_segment ''Conference Room 400''"
proof -
  have "is_location_segment ''Conference Room 400''" by code_simp
  with classifiers_exclusive [of "''Conference Room 400''"] show ?thesis by simp
qed


text \<open>
  C10: \<open>should_force_new_event\<close> does not depend on the list of current segments.
\<close>

theorem force_ignores_current:
  "should_force_new_event s l1 = should_force_new_event s l2"
  by (simp add: should_force_new_event_def)

theorem force_ignores_current_witness:
  "should_force_new_event ''Budget REVIEW'' [] \<and> should_force_new_event ''Budget REVIEW'' [''Staff'', ''Room 5'']"
proof -
  have "should_force_new_event ''Budget REVIEW'' []" by code_simp
  with force_ignores_current [of "''Budget REVIEW''" "[]" "[''Staff'', ''Room 5'']"] show ?thesis by simp
qed


section \<open>Properties of the page header locator\<close>

lemma find_day_from_Some:
  "find_day_from k ls = Some i \<longleftrightarrow>
     (\<exists>j. i = k + j \<and> j < length ls \<and> is_day_line (ls ! j) \<and> (\<forall>m<j. \<not> is_day_line (ls ! m)))"
proof (induction ls arbitrary: k)
  case Nil
  then show ?case by simp
next
  case (Cons l ls)
  show ?case
  proof (cases "is_day_line l")
    case True
    then show ?thesis by (auto intro: exI[of _ 0]) (metis gr_zeroI nth_Cons_0)
  next
    case False
    have "(\<exists>j. i = Suc k + j \<and> j < length ls \<and> is_day_line (ls ! j) \<and> (\<forall>m<j. \<not> is_day_line (ls ! m)))
        \<longleftrightarrow> (\<exists>j. i = k + j \<and> j < length (l # ls) \<and> is_day_line ((l # ls) ! j) \<and> (\<forall>m<j. \<not> is_day_line ((l # ls) ! m)))"
      (is "?L \<longleftrightarrow> ?R")
    proof
      assume ?L
      then obtain j where j: "i = Suc k + j" "j < length ls" "is_day_line (ls ! j)" "\<forall>m<j. \<not> is_day_line (ls ! m)" by blast
      have "\<forall>m<Suc j. \<not> is_day_line ((l # ls) ! m)"
        using False j(4) by (auto simp: nth_Cons split: nat.splits)
      with j show ?R by (intro exI[of _ "Suc j"]) simp
    next
      assume ?R
      then obtain j where j: "i = k + j" "j < length (l # ls)" "is_day_line ((l # ls) ! j)" "\<forall>m<j. \<not> is_day_line ((l # ls) ! m)" by blast
      with False obtain j' where j': "j = Suc j'" by (cases j) auto
      have "\<forall>m<j'. \<not> is_day_line (ls ! m)" using j(4) j' by (metis Suc_less_eq nth_Cons_Suc)
      with j j' show ?L by (intro exI[of _ j']) simp
    qed
    with False Cons.IH[of "Suc k"] show ?thesis by simp
  qed
qed

lemma find_day_from_None:
  "find_day_from k ls = None \<longleftrightarrow> (\<forall>l \<in> set ls. \<not> is_day_line l)"
  by (induction ls arbitrary: k) auto



text \<open>
  C9: \<open>find_day_line_index\<close> returns the index of the first line whose trimmed text, in
  upper case, is one of the seven day names, and nothing exactly when there is no such
  line. A list whose only such line is at index \<open>i\<close> therefore gives \<open>i\<close>.
\<close>

theorem find_day_line_index_first:
  "(find_day_line_index lines = Some i \<longleftrightarrow>
      i < length lines
      \<and> str_upper (str_strip (line_text (lines ! i)))
          \<in> {''MONDAY'', ''TUESDAY'', ''WEDNESDAY'', ''THURSDAY'', ''FRIDAY'', ''SATURDAY'', ''SUNDAY''}
      \<and> (\<forall>j<i. str_upper (str_strip (line_text (lines ! j)))
          \<notin> {''MONDAY'', ''TUESDAY'', ''WEDNESDAY'', ''THURSDAY'', ''FRIDAY'', ''SATURDAY'', ''SUNDAY''}))
   \<and> (find_day_line_index lines = None \<longleftrightarrow>
      (\<forall>l \<in> set lines. str_upper (str_strip (line_text l))
          \<notin> {''MONDAY'', ''TUESDAY'', ''WEDNESDAY'', ''THURSDAY'', ''FRIDAY'', ''SATURDAY'', ''SUNDAY''}))"
  unfolding find_day_line_index_def find_day_from_Some find_day_from_None
    is_day_line_def day_names_upper by simp

theorem find_day_line_index_first_witness:
  "find_day_line_index empty_page = Some 1"
proof -
  let ?ls = "empty_page"
  have len: "1 < length ?ls" by code_simp
  have a: "str_upper (str_strip (line_text (?ls ! 1))) = ''TUESDAY''" by code_simp
  have b: "str_upper (str_strip (line_text (?ls ! 0))) = ''SEPTEMBER 5, 2023''" by code_simp
  have "\<forall>j<(1::nat). str_upper (str_strip (line_text (?ls ! j)))
          \<notin> {''MONDAY'', ''TUESDAY'', ''WEDNESDAY'', ''THURSDAY'', ''FRIDAY'', ''SATURDAY'', ''SUNDAY''}"
    using b by simp
  with len a find_day_line_index_first [of ?ls 1] show ?thesis by simp
qed


text \<open>
  C7: \<open>extract_date\<close> returns the date parsed from the first line, from the top, whose
  text has a match of the long-form pattern that the parser accepts; the text around the
  match does not matter. It returns nothing exactly when every line either has no match
  or has one that the parser rejects, so a rejected match never ends the scan. The match
  of a line is the one \<open>re.search\<close> finds, its leftmost.
\<close>

theorem extract_date_first_parsed:
  "(extract_date strptime lines = Some d \<longleftrightarrow>
      (\<exists>i k g. i < length lines
         \<and> rx_search DATE_PATTERN (line_text (lines ! i)) = Some (k, g) \<and> strptime g = Some d
         \<and> (\<forall>j<i. \<forall>k' g'. rx_search DATE_PATTERN (line_text (lines ! j)) = Some (k', g')
                   \<longrightarrow> strptime g' = None)))
   \<and> (extract_date strptime lines = None \<longleftrightarrow>
      (\<forall>l \<in> set lines. \<forall>k g. rx_search DATE_PATTERN (line_text l) = Some (k, g)
                   \<longrightarrow> strptime g = None))"
proof (induction lines)
  case Nil
  then show ?case by simp
next
  case (Cons l ls)
  let ?fail = "\<lambda>l. \<forall>k g. rx_search DATE_PATTERN (line_text l) = Some (k, g) \<longrightarrow> strptime g = None"
  show ?case
  proof (cases "?fail l")
    case True
    then have step: "extract_date strptime (l # ls) = extract_date strptime ls"
      by (auto split: option.splits)
    have "(\<exists>i k g. i < length (l # ls)
         \<and> rx_search DATE_PATTERN (line_text ((l # ls) ! i)) = Some (k, g) \<and> strptime g = Some d
         \<and> (\<forall>j<i. ?fail ((l # ls) ! j)))
       \<longleftrightarrow> (\<exists>i k g. i < length ls
         \<and> rx_search DATE_PATTERN (line_text (ls ! i)) = Some (k, g) \<and> strptime g = Some d
         \<and> (\<forall>j<i. ?fail (ls ! j)))" (is "?L \<longleftrightarrow> ?R")
    proof
      assume ?L
      then obtain i k g where i: "i < length (l # ls)"
        "rx_search DATE_PATTERN (line_text ((l # ls) ! i)) = Some (k, g)" "strptime g = Some d"
        "\<forall>j<i. ?fail ((l # ls) ! j)" by blast
      from True i(2,3) obtain i' where i': "i = Suc i'" by (cases i) auto
      have "\<forall>j<i'. ?fail (ls ! j)"
      proof (intro allI impI)
        fix j k' g' assume "j < i'" "rx_search DATE_PATTERN (line_text (ls ! j)) = Some (k', g')"
        with i(4) i' show "strptime g' = None" by (metis Suc_less_eq nth_Cons_Suc)
      qed
      with i i' show ?R by (intro exI[of _ i'] exI[of _ k] exI[of _ g]) simp
    next
      assume ?R
      then obtain i k g where i: "i < length ls"
        "rx_search DATE_PATTERN (line_text (ls ! i)) = Some (k, g)" "strptime g = Some d"
        "\<forall>j<i. ?fail (ls ! j)" by blast
      have "\<forall>j<Suc i. ?fail ((l # ls) ! j)"
      proof (intro allI impI)
        fix j k' g' assume "j < Suc i" "rx_search DATE_PATTERN (line_text ((l # ls) ! j)) = Some (k', g')"
        with i(4) True show "strptime g' = None" by (cases j) auto
      qed
      with i show ?L by (intro exI[of _ "Suc i"] exI[of _ k] exI[of _ g]) simp
    qed
    with step Cons.IH True show ?thesis by simp
  next
    case False
    then obtain k g d' where m: "rx_search DATE_PATTERN (line_text l) = Some (k, g)" "strptime g = Some d'"
      by auto
    then have step: "extract_date strptime (l # ls) = Some d'" by simp
    have "(\<exists>i k g. i < length (l # ls)
         \<and> rx_search DATE_PATTERN (line_text ((l # ls) ! i)) = Some (k, g) \<and> strptime g = Some d
         \<and> (\<forall>j<i. ?fail ((l # ls) ! j))) \<longleftrightarrow> d' = d" (is "?L \<longleftrightarrow> _")
    proof
      assume ?L
      then obtain i k2 g2 where i: "i < length (l # ls)"
        "rx_search DATE_PATTERN (line_text ((l # ls) ! i)) = Some (k2, g2)" "strptime g2 = Some d"
        "\<forall>j<i. ?fail ((l # ls) ! j)" by blast
      have "i = 0"
      proof (rule ccontr)
        assume "i \<noteq> 0"
        then have "?fail ((l # ls) ! 0)" using i(4) by blast
        with False show False by simp
      qed
      with i m show "d' = d" by simp
    next
      assume "d' = d"
      with m show ?L by (intro exI[of _ 0] exI[of _ k] exI[of _ g]) simp
    qed
    with step False show ?thesis by auto
  qed
qed


theorem extract_date_first_parsed_witness:
  "extract_date strptime_B_d_Y sample_page = Some \<lparr>year = 2023, month = 9, day = 5\<rparr>"
proof -
  have l0: "rx_search DATE_PATTERN (line_text (sample_page ! 0)) = Some (8, ''Smarch 1, 2023'')"
    by code_simp
  have p0: "strptime_B_d_Y ''Smarch 1, 2023'' = None" by code_simp
  have l1: "rx_search DATE_PATTERN (line_text (sample_page ! 1)) = Some (11, ''September 5, 2023'')"
    by code_simp
  have p1: "strptime_B_d_Y ''September 5, 2023'' = Some \<lparr>year = 2023, month = 9, day = 5\<rparr>"
    by code_simp
  have len: "1 < length sample_page" by code_simp
  have "\<forall>j<(1::nat). \<forall>k' g'. rx_search DATE_PATTERN (line_text (sample_page ! j)) = Some (k', g')
          \<longrightarrow> strptime_B_d_Y g' = None"
    using l0 p0 by simp
  with l1 p1 len
    extract_date_first_parsed [of strptime_B_d_Y sample_page "\<lparr>year = 2023, month = 9, day = 5\<rparr>"]
  show ?thesis by blast
qed

text \<open>
  Only the leftmost match of a line is parsed: a line whose first match is rejected is
  passed over, whatever follows on it.
\<close>

lemma extract_date_leftmost_match_only:
  "extract_date strptime_B_d_Y [text_line ''Smarch 1, 2023 to September 5, 2023'' 100] = None
   \<and> extract_date strptime_B_d_Y [text_line ''to September 5, 2023'' 100]
       = Some \<lparr>year = 2023, month = 9, day = 5\<rparr>"
  by code_simp

section \<open>Properties of the driver\<close>

text \<open>
  C6: a page with a date and a day line on which the segmenter finds no event yields
  exactly one record, the placeholder with the date and three empty fields.
\<close>

theorem placeholder_record:
  "extract_date strptime lines = Some d \<Longrightarrow> find_day_line_index lines = Some i \<Longrightarrow>
   merge_events lines (i + 2) = [] \<Longrightarrow>
   page_records strptime lines = ([(isoformat d, [], [], [])], None)"
  by (simp add: page_records_def)


theorem placeholder_record_witness:
  "page_records strptime_B_d_Y empty_page = ([(''2023-09-05'', [], [], [])], None)"
proof -
  have d: "extract_date strptime_B_d_Y empty_page = Some \<lparr>year = 2023, month = 9, day = 5\<rparr>"
    by code_simp
  have i: "find_day_line_index empty_page = Some 1" by code_simp
  have e: "merge_events empty_page (1 + 2) = []" by code_simp
  have iso: "isoformat \<lparr>year = 2023, month = 9, day = 5\<rparr> = ''2023-09-05''" by code_simp
  from placeholder_record [OF d i e] iso show ?thesis by simp
qed

section \<open>The rules of the classifier\<close>

lemma contains_sublist: "contains s k \<longleftrightarrow> sublist k s"
  by (induction s) (simp_all add: sublist_Cons_right)

lemma is_space_upper_char: "is_space (upper_char c) = is_space c"
  by (auto simp: upper_char_def is_space_def lower_letters_def upper_letters_def)

lemma strip_where_map:
  assumes "\<And>c. p (f c) = p c"
  shows "strip_where p (map f s) = map f (strip_where p s)"
proof -
  have "p \<circ> f = p" using assms by (simp add: fun_eq_iff)
  then have dw: "dropWhile p (map f xs) = map f (dropWhile p xs)" for xs
    by (simp add: dropWhile_map)
  show ?thesis
    by (simp add: strip_where_def rev_map dw)
qed

lemma upper_strip: "str_upper (str_strip s) = str_strip (str_upper s)"
  by (simp add: str_upper_def str_strip_def strip_where_map is_space_upper_char)

lemma sublist_dropWhile:
  assumes "k \<noteq> []" and "\<not> p (hd k)"
  shows "sublist k (dropWhile p s) \<longleftrightarrow> sublist k s"
proof
  assume "sublist k (dropWhile p s)"
  moreover have "suffix (dropWhile p s) s" by (rule suffix_dropWhile)
  ultimately show "sublist k s"
    by (meson sublist_order.order.trans suffix_imp_sublist)
next
  assume "sublist k s"
  then obtain ps ss where s: "s = ps @ k @ ss" by (auto simp: sublist_def)
  from assms obtain x xs where k: "k = x # xs" "\<not> p x" by (cases k) auto
  show "sublist k (dropWhile p s)"
  proof (cases "\<forall>c\<in>set ps. p c")
    case True
    then have "dropWhile p s = k @ ss" using s k by (simp add: dropWhile_append2)
    then show ?thesis by simp
  next
    case False
    then obtain c where "c \<in> set ps" "\<not> p c" by blast
    then have "dropWhile p s = dropWhile p ps @ k @ ss" using s by (simp add: dropWhile_append1)
    then show ?thesis by simp
  qed
qed

lemma sublist_strip_where:
  assumes "k \<noteq> []" and "\<not> p (hd k)" and "\<not> p (last k)"
  shows "sublist k (strip_where p s) \<longleftrightarrow> sublist k s"
proof -
  have "sublist k (strip_where p s) \<longleftrightarrow> sublist (rev k) (dropWhile p (rev (dropWhile p s)))"
    by (simp add: strip_where_def sublist_rev_right)
  also have "\<dots> \<longleftrightarrow> sublist (rev k) (rev (dropWhile p s))"
    using assms by (intro sublist_dropWhile) (simp_all add: hd_rev)
  also have "\<dots> \<longleftrightarrow> sublist k (dropWhile p s)" by simp
  also have "\<dots> \<longleftrightarrow> sublist k s" using assms by (intro sublist_dropWhile)
  finally show ?thesis .
qed

lemma contains_upper_strip:
  assumes "k \<noteq> []" and "\<not> is_space (hd k)" and "\<not> is_space (last k)"
  shows "contains (str_upper (str_strip s)) k \<longleftrightarrow> contains (str_upper s) k"
  unfolding contains_sublist upper_strip
  using assms by (simp add: str_strip_def sublist_strip_where)

lemma contains_any_upper_strip:
  assumes "\<forall>k\<in>set ks. k \<noteq> [] \<and> \<not> is_space (hd k) \<and> \<not> is_space (last k)"
  shows "contains_any (str_upper (str_strip s)) ks \<longleftrightarrow> contains_any (str_upper s) ks"
  using assms by (auto simp: contains_any_def list_ex_iff contains_upper_strip)

lemma location_hints_edges:
  "\<forall>k\<in>set LOCATION_HINTS. k \<noteq> [] \<and> \<not> is_space (hd k) \<and> \<not> is_space (last k)"
  by (simp add: LOCATION_HINTS_def is_space_def)

lemma blank_contains_nothing:
  assumes "str_strip s = []" and "k \<noteq> []" and "\<not> is_space (hd k)" and "\<not> is_space (last k)"
  shows "\<not> contains (str_upper s) k"
  using contains_upper_strip [OF assms(2-4), of s] assms(1,2) by (simp add: str_upper_def)

text \<open>
  C4: for every segment, with its text in upper case: if it contains \<open>TELECONFERENCE\<close>,
  \<open>is_location_segment\<close> is true; otherwise, if it contains \<open>CHIEF'S CONFERENCE\<close>, it is
  false; otherwise, if it contains \<open>CONFERENCE\<close> and none of \<open>ROOM\<close>, \<open>CENTER\<close>,
  \<open>CALL\<close>, \<open>LINE\<close>, it is false; otherwise it is true exactly when the text contains
  one of the location hints. The text may be taken before or after trimming.
\<close>

theorem is_location_segment_rules:
  "is_location_segment segment =
     (if contains (str_upper segment) ''TELECONFERENCE'' then True
      else if contains (str_upper segment) (''CHIEF'' @ [CHR 0x27] @ ''S CONFERENCE'') then False
      else if contains (str_upper segment) ''CONFERENCE''
              \<and> \<not> contains (str_upper segment) ''ROOM''
              \<and> \<not> contains (str_upper segment) ''CENTER''
              \<and> \<not> contains (str_upper segment) ''CALL''
              \<and> \<not> contains (str_upper segment) ''LINE'' then False
      else contains_any (str_upper segment) LOCATION_HINTS)"
proof (cases "str_strip segment = []")
  case True
  have none: "\<not> contains (str_upper segment) k"
    if "k \<noteq> []" "\<not> is_space (hd k)" "\<not> is_space (last k)" for k
    using blank_contains_nothing [OF True that] .
  have "\<not> contains (str_upper segment) ''TELECONFERENCE''"
    by (rule none) (simp_all add: is_space_def)
  moreover have "\<not> contains_any (str_upper segment) LOCATION_HINTS"
    using location_hints_edges none by (auto simp: contains_any_def list_ex_iff)
  ultimately show ?thesis using True by (simp add: is_location_segment_def)
next
  case False
  have c: "contains (str_upper (str_strip segment)) k = contains (str_upper segment) k"
    if "k \<in> {''TELECONFERENCE'', ''CHIEF'' @ [CHR 0x27] @ ''S CONFERENCE'', ''CONFERENCE'',
               ''ROOM'', ''CENTER'', ''CALL'', ''LINE''}" for k
    using that by (intro contains_upper_strip) (auto simp: is_space_def)
  show ?thesis
    using False
    by (simp add: is_location_segment_def Let_def c
        contains_any_upper_strip [OF location_hints_edges])
qed

theorem is_location_segment_rules_witness:
  "is_location_segment ''Conference Room 400'' \<and> \<not> is_location_segment ''press conference''"
proof -
  have a: "\<not> contains (str_upper ''Conference Room 400'') ''TELECONFERENCE''" by code_simp
  have b: "\<not> contains (str_upper ''Conference Room 400'') (''CHIEF'' @ [CHR 0x27] @ ''S CONFERENCE'')"
    by code_simp
  have c: "contains (str_upper ''Conference Room 400'') ''ROOM''" by code_simp
  have d: "contains_any (str_upper ''Conference Room 400'') LOCATION_HINTS" by code_simp
  have e: "\<not> contains (str_upper ''press conference'') ''TELECONFERENCE''" by code_simp
  have f: "\<not> contains (str_upper ''press conference'') (''CHIEF'' @ [CHR 0x27] @ ''S CONFERENCE'')"
    by code_simp
  have g: "contains (str_upper ''press conference'') ''CONFERENCE''
           \<and> \<not> contains (str_upper ''press conference'') ''ROOM''
           \<and> \<not> contains (str_upper ''press conference'') ''CENTER''
           \<and> \<not> contains (str_upper ''press conference'') ''CALL''
           \<and> \<not> contains (str_upper ''press conference'') ''LINE''" by code_simp
  show ?thesis
    using is_location_segment_rules [of "''Conference Room 400''"]
      is_location_segment_rules [of "''press conference''"] a b c d e f g
    by simp
qed

text \<open>
  The meeting-type rule of \<open>should_force_new_event\<close> as the code runs it: for a segment
  that no earlier rule decides and that contains one of the keywords, the result is true
  when the text has no location hint, as the rule says, and false whenever it has one.
  The code computes the words of the segment and the test for a short capitalised
  title, and then repeats the test for the absence of a location hint that has just
  failed, so the title test never counts.
\<close>

lemma meeting_type_rule_as_coded:
  assumes "str_strip s \<noteq> []"
    and "\<not> startswith (str_upper (str_strip s)) ''PH:''"
    and "\<not> contains (str_upper (str_strip s)) ''TELECONFERENCE''"
    and "\<not> is_location_segment s"
    and "\<not> rx_fullmatch NAME_SHAPE (str_strip s)"
    and "\<not> contains_any (str_upper (str_strip s)) PERSON_HINTS"
    and "\<not> rx_matches CLOCK_TIME (str_strip s)"
    and "\<not> rx_matches AM_PM_TIME (str_upper (str_strip s))"
    and "\<not> startswith_any (str_upper (str_strip s)) FORCED_EVENT_PREFIXES"
    and "contains_any (str_upper (str_strip s))
           [''MTG:'', ''HEARING'', ''BRIEFING'', ''INTERVIEW'', ''DEFENSE'', ''REVIEW'',
            ''PRESS CONFERENCE'']"
  shows "should_force_new_event s cur
           = (\<not> contains_any (str_upper (str_strip s)) LOCATION_HINTS)"
  using assms by (simp add: should_force_new_event_def Let_def MEETING_TYPE_KEYWORDS_def)

lemma meeting_type_rule_no_hint:
  "should_force_new_event ''BUDGET HEARING'' [''Staff'']
   \<and> \<not> contains_any (str_upper (str_strip ''BUDGET HEARING'')) LOCATION_HINTS"
proof -
  have h1: "str_strip ''BUDGET HEARING'' \<noteq> []" by code_simp
  have h2: "\<not> startswith (str_upper (str_strip ''BUDGET HEARING'')) ''PH:''" by code_simp
  have h3: "\<not> contains (str_upper (str_strip ''BUDGET HEARING'')) ''TELECONFERENCE''"
    by code_simp
  have h4: "\<not> is_location_segment ''BUDGET HEARING''" by code_simp
  have h5: "\<not> rx_fullmatch NAME_SHAPE (str_strip ''BUDGET HEARING'')" by code_simp
  have h6: "\<not> contains_any (str_upper (str_strip ''BUDGET HEARING'')) PERSON_HINTS"
    by code_simp
  have h7: "\<not> rx_matches CLOCK_TIME (str_strip ''BUDGET HEARING'')" by code_simp
  have h8: "\<not> rx_matches AM_PM_TIME (str_upper (str_strip ''BUDGET HEARING''))" by code_simp
  have h9: "\<not> startswith_any (str_upper (str_strip ''BUDGET HEARING'')) FORCED_EVENT_PREFIXES"
    by code_simp
  have h10: "contains_any (str_upper (str_strip ''BUDGET HEARING''))
           [''MTG:'', ''HEARING'', ''BRIEFING'', ''INTERVIEW'', ''DEFENSE'', ''REVIEW'',
            ''PRESS CONFERENCE'']" by code_simp
  have n: "\<not> contains_any (str_upper (str_strip ''BUDGET HEARING'')) LOCATION_HINTS"
    by code_simp
  from meeting_type_rule_as_coded [OF h1 h2 h3 h4 h5 h6 h7 h8 h9 h10, of "[''Staff'']"] n
  show ?thesis by simp
qed

text \<open>
  C2: a segment that reaches the meeting-type rule with a location hint starts a new
  event exactly when it is a short title, of 2 to 8 words of which all but one at most
  start with a capital letter. The code does not do so at \<open>PRESS CONFERENCE\<close>: no
  earlier rule decides the segment, it contains the keyword \<open>PRESS CONFERENCE\<close> of the
  rule and with it the location hint \<open>CONF\<close>, it is a title of two capitalised words,
  and \<open>should_force_new_event\<close> returns false.
\<close>

theorem meeting_type_rule_misses_title:
  "str_strip ''PRESS CONFERENCE'' \<noteq> []
   \<and> \<not> startswith (str_upper (str_strip ''PRESS CONFERENCE'')) ''PH:''
   \<and> \<not> contains (str_upper (str_strip ''PRESS CONFERENCE'')) ''TELECONFERENCE''
   \<and> \<not> is_location_segment ''PRESS CONFERENCE''
   \<and> \<not> rx_fullmatch NAME_SHAPE (str_strip ''PRESS CONFERENCE'')
   \<and> \<not> contains_any (str_upper (str_strip ''PRESS CONFERENCE'')) PERSON_HINTS
   \<and> \<not> rx_matches CLOCK_TIME (str_strip ''PRESS CONFERENCE'')
   \<and> \<not> rx_matches AM_PM_TIME (str_upper (str_strip ''PRESS CONFERENCE''))
   \<and> \<not> startswith_any (str_upper (str_strip ''PRESS CONFERENCE'')) FORCED_EVENT_PREFIXES
   \<and> contains (str_upper (str_strip ''PRESS CONFERENCE'')) ''PRESS CONFERENCE''
   \<and> contains (str_upper (str_strip ''PRESS CONFERENCE'')) ''CONF''
   \<and> contains_any (str_upper (str_strip ''PRESS CONFERENCE'')) LOCATION_HINTS
   \<and> title_like (str_strip ''PRESS CONFERENCE'')
   \<and> \<not> should_force_new_event ''PRESS CONFERENCE'' []"
  by code_simp

section \<open>Properties of the event segmenter\<close>

lemma merge_line_None: "merge_line st l = None \<longleftrightarrow> is_region_end l"
  by (auto simp: merge_line_def is_region_end_def Let_def)

lemma merge_loop_stop:
  "is_region_end b \<Longrightarrow> merge_loop st (xs @ b # ys) = merge_loop st xs"
proof (induction xs arbitrary: st)
  case Nil
  then have "merge_line st b = None" by (simp add: merge_line_None)
  then show ?case by simp
next
  case (Cons x xs)
  then show ?case by (simp split: option.splits)
qed

lemma date_search_empty: "rx_search DATE_PATTERN [] = None"
  by code_simp

lemma digits_fullmatch_empty: "\<not> rx_fullmatch DIGITS_ONLY_PATTERN []"
  by code_simp

text \<open>
  C3: the segmenter, which reads the lines from the start index on, takes no segment
  from a line at or after the first line that ends the region (its trimmed text in upper
  case is a day name, or it contains the long-form date pattern, or it is made of digits
  only and the line is at a horizontal position greater than 200): for every list of
  lines, start index and index \<open>i\<close> of such a line in the scan, \<open>merge_events\<close> returns
  the events it returns for the lines cut just before index \<open>i\<close>. The first such line
  of the scan is one of them.
\<close>

theorem region_end_truncates:
  assumes "start \<le> i" and "i < length lines"
    and "str_upper (str_strip (line_text (lines ! i)))
           \<in> {''MONDAY'', ''TUESDAY'', ''WEDNESDAY'', ''THURSDAY'', ''FRIDAY'', ''SATURDAY'', ''SUNDAY''}
         \<or> rx_search DATE_PATTERN (str_strip (line_text (lines ! i))) \<noteq> None
         \<or> (rx_fullmatch DIGITS_ONLY_PATTERN (str_strip (line_text (lines ! i)))
            \<and> line_x0 (lines ! i) > 200)"
  shows "merge_events lines start = merge_events (take i lines) start"
proof -
  have ne: "str_strip (line_text (lines ! i)) \<noteq> []"
    using assms(3) date_search_empty digits_fullmatch_empty
    by (auto simp: str_upper_def)
  have "is_region_end (lines ! i)"
    using assms(3) ne unfolding is_region_end_def Let_def day_names_upper by blast
  moreover have "drop start lines = drop start (take i lines) @ lines ! i # drop (Suc i) lines"
  proof -
    have "lines = take i lines @ lines ! i # drop (Suc i) lines"
      using assms(2) by (rule id_take_nth_drop)
    then have "drop start lines = drop start (take i lines @ lines ! i # drop (Suc i) lines)"
      by simp
    also have "\<dots> = drop start (take i lines) @ lines ! i # drop (Suc i) lines"
      using assms(1,2) by simp
    finally show ?thesis .
  qed
  ultimately show ?thesis
    by (simp add: merge_events_def merge_loop_stop)
qed

theorem region_end_truncates_witness:
  "merge_events sample_page 4 = merge_events (take 6 sample_page) 4
   \<and> merge_events (take 6 sample_page) 4
       = [[''Jane Smith (DNR)'', ''Conference Room 400''], [''MTG: Budget''], [''PH: John'']]"
proof -
  have a: "(4::nat) \<le> 6" by simp
  have b: "6 < length sample_page" by code_simp
  have c: "rx_fullmatch DIGITS_ONLY_PATTERN (str_strip (line_text (sample_page ! 6)))
           \<and> line_x0 (sample_page ! 6) > 200" by code_simp
  have d: "merge_events (take 6 sample_page) 4
       = [[''Jane Smith (DNR)'', ''Conference Room 400''], [''MTG: Budget''], [''PH: John'']]"
    by code_simp
  from region_end_truncates [OF a b] c d show ?thesis by simp
qed

lemma strip_where_empty: "strip_where p s = [] \<longleftrightarrow> (\<forall>c\<in>set s. p c)"
proof -
  have "strip_where p s = [] \<longleftrightarrow> (\<forall>c\<in>set (dropWhile p s). p c)"
    by (simp add: strip_where_def dropWhile_eq_Nil_conv)
  also have "\<dots> \<longleftrightarrow> dropWhile p s = []"
  proof
    assume a: "\<forall>c\<in>set (dropWhile p s). p c"
    show "dropWhile p s = []"
    proof (rule ccontr)
      assume ne: "dropWhile p s \<noteq> []"
      then have "\<not> p (hd (dropWhile p s))" by (rule hd_dropWhile)
      moreover have "hd (dropWhile p s) \<in> set (dropWhile p s)" using ne by simp
      ultimately show False using a by blast
    qed
  qed (auto dest: set_dropWhileD)
  also have "\<dots> \<longleftrightarrow> (\<forall>c\<in>set s. p c)" by (simp add: dropWhile_eq_Nil_conv)
  finally show ?thesis .
qed

lemma str_strip_empty: "str_strip s = [] \<longleftrightarrow> (\<forall>c\<in>set s. is_space c)"
  by (simp add: str_strip_def strip_where_empty)

lemma set_strip_where: "set (strip_where p s) \<subseteq> set s"
  by (auto simp: strip_where_def dest!: set_dropWhileD)

lemma strip_where_idem_empty: "strip_where p (strip_where p s) = [] \<longleftrightarrow> strip_where p s = []"
proof
  assume a: "strip_where p (strip_where p s) = []"
  show "strip_where p s = []"
  proof (rule ccontr)
    assume ne: "strip_where p s \<noteq> []"
    let ?b = "dropWhile p (rev (dropWhile p s))"
    have b: "?b \<noteq> []" using ne by (simp add: strip_where_def)
    then have "\<not> p (hd ?b)" by (rule hd_dropWhile)
    moreover have "hd ?b \<in> set (strip_where p s)" using b by (simp add: strip_where_def)
    ultimately show False using a by (simp add: strip_where_empty)
  qed
qed (use set_strip_where [of p s] in \<open>auto simp: strip_where_empty\<close>)

lemma str_strip_idem_empty: "str_strip (str_strip s) = [] \<longleftrightarrow> str_strip s = []"
  by (simp add: str_strip_def strip_where_idem_empty)

lemma split_where_no_sep: "w \<in> set (split_where p s) \<Longrightarrow> c \<in> set w \<Longrightarrow> \<not> p c"
proof (induction s arbitrary: w)
  case Nil
  then show ?case by simp
next
  case (Cons x xs)
  show ?case
  proof (cases "p x")
    case True
    with Cons show ?thesis by auto
  next
    case False
    obtain v vs where v: "split_where p xs = v # vs"
      by (cases "split_where p xs") (cases xs; simp split: if_splits list.splits)+
    with False Cons.prems(1) have "w = x # v \<or> w \<in> set vs" by simp
    then show ?thesis
    proof
      assume "w = x # v"
      with Cons.prems(2) have "c = x \<or> c \<in> set v" by simp
      then show ?thesis using False Cons.IH [of v] v by auto
    next
      assume "w \<in> set vs"
      then show ?thesis using Cons.IH [of w] Cons.prems(2) v by simp
    qed
  qed
qed

lemma split_event_text_solid:
  assumes "x \<in> set (split_event_text t)"
  shows "str_strip x \<noteq> [] \<and> CHR '';'' \<notin> set x"
proof -
  from assms obtain n y where y: "y \<in> set (split_char CHR '';'' n)" "x = str_strip y" "x \<noteq> []"
    by (auto simp: split_event_text_def Let_def split: if_splits)
  have "CHR '';'' \<notin> set y"
    using split_where_no_sep [OF y(1) [unfolded split_char_def]] by blast
  moreover have "set x \<subseteq> set y"
    unfolding y(2) str_strip_def by (rule set_strip_where)
  ultimately show ?thesis using y(2,3) by (auto simp: str_strip_idem_empty)
qed

lemma solid_Nil: "solid []"
  by (simp add: solid_def)

lemma solid_append: "solid (a @ b) \<longleftrightarrow> solid a \<and> solid b"
  by (auto simp: solid_def)

lemma solid_take: "solid a \<Longrightarrow> solid (take k a)"
  by (auto simp: solid_def dest: in_set_takeD)

lemma solid_drop: "solid a \<Longrightarrow> solid (drop k a)"
  by (auto simp: solid_def dest: in_set_dropD)

lemma solid_split_event_text: "solid (split_event_text t)"
  by (simp add: solid_def split_event_text_solid)

lemma flush_current_ok: "state_ok st \<Longrightarrow> state_ok (flush_current st)"
  by (simp add: state_ok_def flush_current_def solid_Nil)

lemma take_pending_ok: "state_ok st \<Longrightarrow> state_ok (take_pending st)"
  by (simp add: state_ok_def take_pending_def solid_Nil solid_append)

lemma note_x0_ok: "state_ok st \<Longrightarrow> state_ok (note_x0 x st)"
  by (simp add: state_ok_def note_x0_def)

lemma track_x0_ok: "state_ok st \<Longrightarrow> state_ok (track_x0 x st)"
  by (simp add: state_ok_def track_x0_def split: option.splits)

lemma extend_current_ok:
  "state_ok st \<Longrightarrow> solid segs \<Longrightarrow>
   state_ok (st\<lparr>current_segments := current_segments st @ segs\<rparr>)"
  by (simp add: state_ok_def solid_append)

lemma extend_pending_ok:
  "state_ok st \<Longrightarrow> solid segs \<Longrightarrow>
   state_ok (st\<lparr>pending_location_segments := pending_location_segments st @ segs\<rparr>)"
  by (simp add: state_ok_def solid_append)

lemma set_flag_ok: "state_ok st \<Longrightarrow> state_ok (st\<lparr>pending_new_event := b\<rparr>)"
  by (simp add: state_ok_def)

lemma set_x0_ok: "state_ok st \<Longrightarrow> state_ok (st\<lparr>current_event_x0 := x\<rparr>)"
  by (simp add: state_ok_def)

lemma resplit_ok:
  assumes "state_ok st"
  shows "state_ok (resplit x st)"
proof (cases "find_split_from 0 (current_segments st)")
  case None
  then show ?thesis using assms by (simp add: resplit_def)
next
  case (Some k)
  let ?a = "st\<lparr>current_segments := take k (current_segments st)\<rparr>"
  have "state_ok ?a" using assms by (simp add: state_ok_def solid_take)
  then have "state_ok (flush_current ?a)" by (rule flush_current_ok)
  moreover have "solid (drop k (current_segments st))"
    using assms by (simp add: state_ok_def solid_drop)
  ultimately have "state_ok ((flush_current ?a)
      \<lparr>current_segments := current_segments (flush_current ?a) @ drop k (current_segments st),
        pending_new_event := False\<rparr>)"
    by (simp add: state_ok_def solid_append)
  then show ?thesis using Some by (simp add: resplit_def Let_def state_ok_def)
qed

lemma if_ok: "state_ok a \<Longrightarrow> state_ok b \<Longrightarrow> state_ok (if c then a else b)"
  by simp

lemma open_event_ok:
  "state_ok st \<Longrightarrow> solid segs \<Longrightarrow>
   state_ok (st\<lparr>current_segments := current_segments st @ segs,
               pending_new_event := b, current_event_x0 := x\<rparr>)"
  by (simp add: state_ok_def solid_append)

lemma close_event_ok:
  "state_ok st \<Longrightarrow> state_ok (st\<lparr>pending_new_event := b, current_event_x0 := x\<rparr>)"
  by (simp add: state_ok_def)

lemma merge_timed_ok:
  assumes "state_ok st" and "solid segs"
  shows "state_ok (merge_timed st segs x)"
  unfolding merge_timed_def Let_def
  by (intro if_ok note_x0_ok extend_current_ok open_event_ok close_event_ok
        take_pending_ok flush_current_ok assms)

lemma merge_untimed_ok:
  assumes "state_ok st" and "solid segs"
  shows "state_ok (merge_untimed st segs x bold)"
  unfolding merge_untimed_def Let_def
  by (intro if_ok note_x0_ok track_x0_ok resplit_ok extend_current_ok extend_pending_ok
        set_flag_ok take_pending_ok flush_current_ok assms)

lemma merge_line_ok:
  assumes "state_ok st" and "merge_line st l = Some st'"
  shows "state_ok st'"
  using assms(2) merge_timed_ok [OF assms(1) solid_split_event_text]
    merge_untimed_ok [OF assms(1) solid_split_event_text] assms(1)
  by (auto simp: merge_line_def Let_def split: if_splits)

lemma merge_loop_ok: "state_ok st \<Longrightarrow> state_ok (merge_loop st ls)"
proof (induction ls arbitrary: st)
  case Nil
  then show ?case by simp
next
  case (Cons l ls)
  then show ?case by (auto split: option.splits dest: merge_line_ok)
qed

lemma initial_state_ok: "state_ok initial_state"
  by (simp add: state_ok_def initial_state_def solid_Nil)

lemma merge_finish_ok:
  assumes "state_ok st" and "e \<in> set (merge_finish st)"
  shows "e \<noteq> [] \<and> solid e"
proof -
  let ?p = "pending_location_segments st"
  have a: "state_ok (st\<lparr>current_segments := current_segments st @ ?p,
                        pending_location_segments := []\<rparr>)"
    using assms(1) by (simp add: state_ok_def solid_append solid_Nil)
  have b: "state_ok (st\<lparr>events := butlast (events st) @ [last (events st) @ ?p],
                        pending_location_segments := []\<rparr>)" if "events st \<noteq> []"
  proof -
    have "last (events st) \<in> set (events st)" using that by simp
    then have "last (events st) \<noteq> [] \<and> solid (last (events st))"
      using assms(1) by (simp add: state_ok_def)
    moreover have "\<forall>e\<in>set (butlast (events st)). e \<noteq> [] \<and> solid e"
      using assms(1) by (auto simp: state_ok_def dest: in_set_butlastD)
    ultimately show ?thesis using assms(1) by (simp add: state_ok_def solid_append solid_Nil)
  qed
  have c: "state_ok (st\<lparr>pending_location_segments := []\<rparr>)"
    using assms(1) by (simp add: state_ok_def solid_Nil)
  have "\<exists>s. state_ok s \<and> merge_finish st = events (flush_current s)"
    unfolding merge_finish_def Let_def using a b c assms(1) by (auto split: if_splits)
  then obtain s where s: "state_ok s" "merge_finish st = events (flush_current s)" by blast
  from s(1) have "state_ok (flush_current s)" by (rule flush_current_ok)
  with s(2) assms(2) show ?thesis by (simp add: state_ok_def)
qed

lemma merge_events_ok:
  assumes "e \<in> set (merge_events lines start)"
  shows "e \<noteq> [] \<and> solid e"
  using assms merge_finish_ok [OF merge_loop_ok [OF initial_state_ok]]
  by (simp add: merge_events_def)

lemma str_strip_Nil: "str_strip [] = []"
  by (simp add: str_strip_def strip_where_def)

lemma strip_joined:
  assumes "str_strip f \<noteq> []"
  shows "str_strip (str_strip (f @ CHR '' '' # seg)) \<noteq> []"
proof -
  have "\<exists>c\<in>set (f @ CHR '' '' # seg). \<not> is_space c"
    using assms unfolding str_strip_empty by auto
  then have "str_strip (f @ CHR '' '' # seg) \<noteq> []"
    unfolding str_strip_empty by blast
  then show ?thesis unfolding str_strip_idem_empty .
qed

lemma process_rest_name:
  "str_strip f \<noteq> [] \<Longrightarrow> str_strip (fst (process_rest f acc rest)) \<noteq> []"
proof (induction rest arbitrary: f acc)
  case Nil
  then show ?case by simp
next
  case (Cons segment rest)
  then show ?case
    by (auto simp: Let_def strip_joined split: option.splits)
qed

lemma format_name:
  assumes "format_event_segments (seg0 # others) = Inr (n, m, p)"
  shows "n = fst (process_rest (str_strip seg0) []
                    (map str_strip (filter (\<lambda>seg. seg \<noteq> [] \<and> str_strip seg \<noteq> []) others)))"
  using assms
  by (auto simp: format_event_segments_def Let_def split: prod.splits sum.splits if_splits)

lemma format_name_nonempty:
  assumes "format_event_segments e = Inr (n, m, p)" and "e \<noteq> []" and "solid e"
  shows "n \<noteq> []"
proof -
  from assms(2) obtain seg0 others where e: "e = seg0 # others" by (cases e) auto
  with assms(3) have "str_strip (str_strip seg0) \<noteq> []"
    by (simp add: solid_def str_strip_idem_empty)
  then have "str_strip n \<noteq> []"
    unfolding format_name [OF assms(1) [unfolded e]] by (rule process_rest_name)
  then show ?thesis using str_strip_Nil by auto
qed

lemma yield_events_rows:
  assumes "\<forall>e\<in>set evs. e \<noteq> [] \<and> solid e" and "r \<in> set (fst (yield_events d evs))"
  shows "fst r = d \<and> fst (snd r) \<noteq> []"
  using assms
proof (induction evs)
  case Nil
  then show ?case by simp
next
  case (Cons e evs)
  show ?case
  proof (cases "format_event_segments e")
    case (Inl err)
    with Cons.prems(2) show ?thesis by simp
  next
    case (Inr t)
    obtain n m p where t: "t = (n, m, p)" by (cases t) auto
    have n: "n \<noteq> []" using format_name_nonempty [of e n m p] Inr t Cons.prems(1) by simp
    from Cons.prems(2) Inr t have "r = (d, n, m, p) \<or> r \<in> set (fst (yield_events d evs))"
      by (auto split: prod.splits)
    then show ?thesis using n Cons.IH Cons.prems(1) by auto
  qed
qed

text \<open>
  The formatter raises \<open>IndexError\<close> only on a meeting place that starts with \<open>PH:\<close>
  in lower or mixed case. No piece of a solid segment that reaches the meeting place
  starts so: a whole segment that does is moved to the event name, the part before an
  embedded name starts as its segment does, and the part after it starts with the name.
\<close>

lemma dropWhile_self: "xs = [] \<or> \<not> p (hd xs) \<Longrightarrow> dropWhile p xs = xs"
  by (cases xs) auto

lemma strip_where_hd:
  assumes "strip_where p s \<noteq> []"
  shows "\<not> p (hd (strip_where p s))"
proof -
  let ?a = "dropWhile p s" and ?b = "dropWhile p (rev (dropWhile p s))"
  have b: "?b \<noteq> []" using assms by (simp add: strip_where_def)
  then have a: "?a \<noteq> []" by (metis dropWhile.simps(1) rev.simps(1))
  have "rev ?a = takeWhile p (rev ?a) @ ?b" by simp
  then have "last (rev ?a) = last ?b" using b by (metis last_appendR)
  then have "last ?b = hd ?a" using a by (simp add: last_rev)
  moreover have "\<not> p (hd ?a)" using a by (rule hd_dropWhile)
  moreover have "hd (strip_where p s) = last ?b" using b by (simp add: strip_where_def hd_rev)
  ultimately show ?thesis by simp
qed

lemma strip_where_prefix:
  assumes "s = [] \<or> \<not> p (hd s)"
  shows "prefix (strip_where p s) s"
proof -
  have "dropWhile p s = s" using assms by (rule dropWhile_self)
  then have e: "strip_where p s = rev (dropWhile p (rev s))" by (simp add: strip_where_def)
  have "rev s = takeWhile p (rev s) @ dropWhile p (rev s)" by simp
  then have "s = rev (dropWhile p (rev s)) @ rev (takeWhile p (rev s))"
    by (metis rev_append rev_rev_ident)
  then show ?thesis unfolding e by (metis prefixI)
qed

lemma strip_where_idem: "strip_where p (strip_where p s) = strip_where p s"
proof (cases "strip_where p s = []")
  case True
  show ?thesis unfolding True by (simp add: strip_where_def)
next
  case False
  let ?b = "dropWhile p (rev (dropWhile p s))"
  have b: "?b \<noteq> []" using False by (simp add: strip_where_def)
  have h: "\<not> p (hd (rev ?b))" using strip_where_hd [OF False] by (simp add: strip_where_def)
  have "dropWhile p (rev ?b) = rev ?b" using h by (intro dropWhile_self) simp
  moreover have "dropWhile p ?b = ?b" using b hd_dropWhile [OF b] by (intro dropWhile_self) simp
  ultimately show ?thesis by (simp add: strip_where_def)
qed

lemma str_strip_idem: "str_strip (str_strip s) = str_strip s"
  by (simp add: str_strip_def strip_where_idem)

lemma upper_prefix: "prefix a b \<Longrightarrow> prefix (str_upper a) (str_upper b)"
  by (simp add: str_upper_def map_mono_prefix)

lemma no_phone_prefix:
  assumes "prefix u s" and "u = [] \<or> \<not> is_space (hd u)"
    and "\<not> startswith (str_upper s) ''PH:''"
  shows "no_phone u"
proof -
  have "prefix (str_strip u) u" unfolding str_strip_def using assms(2) by (rule strip_where_prefix)
  then have "prefix (str_strip u) s" using assms(1) by (rule prefix_order.trans)
  then have "prefix (str_upper (str_strip u)) (str_upper s)" by (rule upper_prefix)
  then show ?thesis using assms(3) unfolding no_phone_def startswith_def
    by (meson prefix_order.trans)
qed


lemma rx_search_from_match:
  "rx_search_from r i s = Some (k, m) \<Longrightarrow> i \<le> k \<and> rx_match r (drop (k - i) s) \<noteq> []"
proof (induction s arbitrary: i)
  case Nil
  then show ?case by (auto split: list.splits)
next
  case (Cons c cs)
  show ?case
  proof (cases "rx_match r (c # cs)")
    case Nil
    with Cons.prems have "rx_search_from r (Suc i) cs = Some (k, m)" by simp
    from Cons.IH [OF this] have "Suc i \<le> k" "rx_match r (drop (k - Suc i) cs) \<noteq> []" by auto
    moreover from \<open>Suc i \<le> k\<close> have "k - i = Suc (k - Suc i)" by simp
    ultimately show ?thesis by simp
  next
    case (Cons rest rests)
    with Cons.prems have "k = i" by simp
    with Cons show ?thesis by simp
  qed
qed

lemma rx_search_match:
  "rx_search r s = Some (k, m) \<Longrightarrow> rx_match r (drop k s) \<noteq> []"
  using rx_search_from_match [of r 0 s k m] by (simp add: rx_search_def)

lemma many1_mem:
  "r \<in> set (many1 p s) \<Longrightarrow> \<exists>u. u \<noteq> [] \<and> (\<forall>c\<in>set u. p c) \<and> s = u @ r"
proof (induction s)
  case Nil
  then show ?case by simp
next
  case (Cons c cs)
  then have pc: "p c" and alt: "r \<in> set (many1 p cs) \<or> r = cs" by (auto split: if_splits)
  from alt show ?case
  proof
    assume "r \<in> set (many1 p cs)"
    from Cons.IH [OF this] obtain u where "u \<noteq> []" "\<forall>c\<in>set u. p c" "cs = u @ r" by blast
    with pc show ?thesis by (intro exI [of _ "c # u"]) simp
  next
    assume "r = cs"
    with pc show ?thesis by (intro exI [of _ "[c]"]) simp
  qed
qed

lemma embedded_name_shape:
  assumes "rx_match EMBEDDED_NAME t \<noteq> []"
  shows "\<exists>a b c rest. t = a # b # c # rest \<and> is_upper a \<and> is_lower b
           \<and> (is_lower c \<or> c = CHR '','')"
proof -
  let ?R2 = "Seq (Ch CHR '','') (Seq (Many1 is_space) (Cls is_upper))"
  from assms obtain a t1 where t: "t = a # t1" "is_upper a"
    and m1: "rx_match (Seq (Many1 is_lower) ?R2) t1 \<noteq> []"
    by (cases t) (auto simp: EMBEDDED_NAME_def split: if_splits)
  from m1 obtain r where r: "r \<in> set (many1 is_lower t1)" "rx_match ?R2 r \<noteq> []"
    by auto
  from r(2) obtain r' where r': "r = CHR '','' # r'"
    by (cases r) (auto simp: Ch_def split: if_splits)
  from many1_mem [OF r(1)] obtain u where u: "u \<noteq> []" "\<forall>c\<in>set u. is_lower c" "t1 = u @ r"
    by blast
  from u(1) obtain b u' where b: "u = b # u'" by (cases u) auto
  show ?thesis
  proof (cases u')
    case Nil
    with t u b r' show ?thesis by simp
  next
    case (Cons c u'')
    with t u b r' show ?thesis by simp
  qed
qed

lemma upper_char_colon: "is_lower c \<or> c = CHR '','' \<Longrightarrow> upper_char c \<noteq> CHR '':''"
  by (auto simp: is_lower_def upper_char_def lower_letters_def upper_letters_def)

lemma upper_char_of_upper: "is_upper c \<Longrightarrow> \<not> is_space c"
  by (auto simp: is_upper_def is_space_def upper_letters_def)

lemma after_part_no_phone:
  assumes "rx_search EMBEDDED_NAME segment = Some (start, m)"
  shows "no_phone (str_strip (drop start segment))"
proof -
  from embedded_name_shape [OF rx_search_match [OF assms]]
  obtain a b c rest where d: "drop start segment = a # b # c # rest" "is_upper a"
    "is_lower c \<or> c = CHR '',''" by blast
  have hd: "\<not> is_space (hd (drop start segment))" using d(1,2) upper_char_of_upper by simp
  have "\<not> startswith (str_upper (drop start segment)) ''PH:''"
    using d(1) upper_char_colon [OF d(3)] by (simp add: startswith_def str_upper_def)
  moreover have "prefix (str_strip (drop start segment)) (drop start segment)"
    unfolding str_strip_def using hd by (intro strip_where_prefix) simp
  moreover have "str_strip (drop start segment) = []
                 \<or> \<not> is_space (hd (str_strip (drop start segment)))"
    using strip_where_hd [of is_space "drop start segment"] by (auto simp: str_strip_def)
  ultimately show ?thesis by (intro no_phone_prefix)
qed

lemma before_part_no_phone:
  assumes "str_strip segment = segment" and "segment \<noteq> []" and "CHR '';'' \<notin> set segment"
    and "\<not> startswith (str_upper segment) ''PH:''" and "0 < start"
    and "strip_space_semi (take start segment) \<noteq> []"
  shows "no_phone (strip_space_semi (take start segment))"
proof -
  let ?q = "\<lambda>c. c \<in> set '' ;''" and ?T = "take start segment"
  have sp: "\<not> is_space (hd segment)"
    using strip_where_hd [of is_space segment] assms(1,2) by (simp add: str_strip_def)
  have "hd segment \<in> set segment" using assms(2) by simp
  then have semi: "hd segment \<noteq> CHR '';''" using assms(3) by auto
  have hdT: "hd ?T = hd segment" using assms(2,5) by (cases segment; cases start) auto
  have "hd segment \<noteq> CHR '' ''" using sp by (auto simp: is_space_def)
  then have "\<not> ?q (hd ?T)" using semi hdT by simp
  then have p1: "prefix (strip_where ?q ?T) ?T" by (intro strip_where_prefix) simp
  then have p2: "prefix (strip_space_semi ?T) segment"
    unfolding strip_space_semi_def by (meson prefix_order.trans take_is_prefix)
  have "hd (strip_space_semi ?T) = hd ?T"
    using p1 assms(6) unfolding strip_space_semi_def by (metis hd_append2 prefixE)
  then have "\<not> is_space (hd (strip_space_semi ?T))" using hdT sp by simp
  with p2 assms(4) show ?thesis by (intro no_phone_prefix) auto
qed


lemma process_rest_no_phone:
  assumes "\<forall>x\<in>set acc. no_phone x"
    and "\<forall>y\<in>set rest. str_strip y = y \<and> CHR '';'' \<notin> set y"
  shows "\<forall>x\<in>set (snd (process_rest f acc rest)). no_phone x"
  using assms
proof (induction rest arbitrary: f acc)
  case Nil
  then show ?case by simp
next
  case (Cons segment rest)
  have rest: "\<forall>y\<in>set rest. str_strip y = y \<and> CHR '';'' \<notin> set y" using Cons.prems(2) by simp
  have seg: "str_strip segment = segment" "CHR '';'' \<notin> set segment" using Cons.prems(2) by simp_all
  note IH = Cons.IH [OF _ rest]
  show ?case
  proof (cases "segment = [] \<or> startswith (str_upper segment) ''PH:''
                \<or> should_skip_segment f segment")
    case True
    then show ?thesis using IH [OF Cons.prems(1)] by auto
  next
    case False
    then have ne: "segment \<noteq> []" and nph: "\<not> startswith (str_upper segment) ''PH:''"
      and nsk: "\<not> should_skip_segment f segment" by auto
    have whole: "no_phone segment" using nph seg(1) by (simp add: no_phone_def)
    have keep: "\<forall>x\<in>set (snd (process_rest f (acc @ [segment]) rest)). no_phone x"
      using IH [of "acc @ [segment]"] Cons.prems(1) whole by simp
    show ?thesis
    proof (cases "rx_search EMBEDDED_NAME segment")
      case None
      with ne nph nsk keep show ?thesis by simp
    next
      case (Some km)
      obtain start m where km: "km = (start, m)" by (cases km) auto
      show ?thesis
      proof (cases "0 < start")
        case False
        with Some km ne nph nsk keep show ?thesis by simp
      next
        case True
        let ?b = "strip_space_semi (take start segment)"
        let ?a = "str_strip (drop start segment)"
        let ?acc = "acc @ (if ?b \<noteq> [] then [?b] else []) @ (if ?a \<noteq> [] then [?a] else [])"
        have "no_phone ?a" using after_part_no_phone Some km by simp
        moreover have "?b \<noteq> [] \<Longrightarrow> no_phone ?b"
          using before_part_no_phone [OF seg(1) ne seg(2) nph True] by simp
        ultimately have "\<forall>x\<in>set ?acc. no_phone x" using Cons.prems(1) by auto
        from IH [OF this] show ?thesis
          using Some km ne nph nsk True by (simp add: Let_def)
      qed
    qed
  qed
qed

lemma str_join_Cons:
  "str_join sep (p # ps) = p @ (if ps = [] then [] else sep @ str_join sep ps)"
  by (cases ps) simp_all

lemma phone_prefix_append:
  assumes "A \<noteq> []" and "B = [] \<or> hd B = CHR '';''" and "prefix ''PH:'' (A @ B)"
  shows "prefix ''PH:'' A"
proof -
  from assms(1) obtain a1 A1 where A: "A = a1 # A1" by (cases A) auto
  show ?thesis
  proof (cases A1)
    case Nil
    with A assms(2,3) show ?thesis by (cases B) auto
  next
    case (Cons a2 A2)
    show ?thesis
    proof (cases A2)
      case Nil
      with A Cons assms(2,3) show ?thesis by (cases B) auto
    next
      case (Cons a3 A3)
      with A \<open>A1 = a2 # A2\<close> assms(3) show ?thesis by auto
    qed
  qed
qed

lemma join_parts_no_phone:
  assumes "\<forall>x\<in>set parts. no_phone x"
  shows "no_phone (join_parts parts)"
proof -
  let ?ps = "map str_strip (filter (\<lambda>part. str_strip part \<noteq> []) parts)"
  show ?thesis
  proof (cases ?ps)
    case Nil
    then have "join_parts parts = []" by (simp add: join_parts_def)
    then show ?thesis by (simp add: no_phone_def startswith_def str_strip_def strip_where_def
          str_upper_def)
  next
    case (Cons p0 ps)
    then have "p0 \<in> set ?ps" by simp
    then obtain x where x: "x \<in> set parts" "p0 = str_strip x" "p0 \<noteq> []" by auto
    let ?tail = "if ps = [] then [] else ''; '' @ str_join ''; '' ps"
    have j: "join_parts parts = p0 @ ?tail"
      using Cons by (simp add: join_parts_def str_join_Cons)
    have "\<not> is_space (hd p0)"
      using strip_where_hd [of is_space x] x(2,3) by (simp add: str_strip_def)
    then have hdj: "\<not> is_space (hd (join_parts parts))" using j x(3) by simp
    have "\<not> prefix ''PH:'' (str_upper p0)"
      using assms x(1,2) by (auto simp: no_phone_def startswith_def)
    moreover have "str_upper p0 \<noteq> []" using x(3) by (simp add: str_upper_def)
    moreover have "str_upper ?tail = [] \<or> hd (str_upper ?tail) = CHR '';''"
      by (simp add: str_upper_def upper_char_def lower_letters_def upper_letters_def)
    ultimately have "\<not> prefix ''PH:'' (str_upper p0 @ str_upper ?tail)"
      using phone_prefix_append by blast
    then have "\<not> startswith (str_upper (join_parts parts)) ''PH:''"
      unfolding j by (simp add: startswith_def str_upper_def)
    then show ?thesis using hdj by (intro no_phone_prefix) auto
  qed
qed

lemma clean_meeting_place_no_phone:
  "no_phone t \<Longrightarrow> clean_meeting_place t = Inr (str_strip t)"
  by (simp add: clean_meeting_place_def no_phone_def)


lemma format_event_segments_ok:
  assumes "solid e"
  shows "\<exists>n m p. format_event_segments e = Inr (n, m, p)"
proof (cases e)
  case Nil
  then show ?thesis by (simp add: format_event_segments_def)
next
  case (Cons seg0 others)
  let ?raw = "map str_strip (filter (\<lambda>seg. seg \<noteq> [] \<and> str_strip seg \<noteq> []) others)"
  obtain f pr where pr: "process_rest (str_strip seg0) [] ?raw = (f, pr)"
    by (cases "process_rest (str_strip seg0) [] ?raw") auto
  have "\<forall>y\<in>set ?raw. str_strip y = y \<and> CHR '';'' \<notin> set y"
  proof
    fix y assume "y \<in> set ?raw"
    then obtain z where z: "z \<in> set others" "y = str_strip z" by auto
    then have "CHR '';'' \<notin> set z" using assms Cons by (simp add: solid_def)
    moreover have "set y \<subseteq> set z" unfolding z(2) str_strip_def by (rule set_strip_where)
    ultimately show "str_strip y = y \<and> CHR '';'' \<notin> set y"
      using z(2) by (auto simp: str_strip_idem)
  qed
  from process_rest_no_phone [OF _ this, of "[]" "str_strip seg0"] pr
  have all: "\<forall>x\<in>set pr. no_phone x" by simp
  let ?pr = "filter (\<lambda>segment. segment \<noteq> []) pr"
  have cm: "clean_meeting_place (join_parts X) = Inr (str_strip (join_parts X))"
    if "set X \<subseteq> set pr" for X
    using that all by (intro clean_meeting_place_no_phone join_parts_no_phone) auto
  show ?thesis
    unfolding Cons format_event_segments_def
    by (simp add: Let_def pr cm)
qed

lemma yield_events_total:
  assumes "\<forall>e\<in>set evs. solid e"
  shows "snd (yield_events d evs) = None \<and> length (fst (yield_events d evs)) = length evs"
  using assms
proof (induction evs)
  case Nil
  then show ?case by simp
next
  case (Cons e evs)
  then have "solid e" by simp
  from format_event_segments_ok [OF this] obtain n m p
    where "format_event_segments e = Inr (n, m, p)" by blast
  with Cons show ?case by (auto split: prod.splits)
qed

lemma page_records_total:
  "snd (page_records strptime lines) = None"
proof -
  have "\<forall>e\<in>set (merge_events lines start). solid e" for start
    using merge_events_ok by blast
  then show ?thesis
    by (auto simp: page_records_def Let_def yield_events_total split: option.splits)
qed

lemma page_records_count:
  assumes "extract_date strptime lines = Some d" and "find_day_line_index lines = Some i"
    and "merge_events lines (i + 2) \<noteq> []"
  shows "length (fst (page_records strptime lines)) = length (merge_events lines (i + 2))"
proof -
  have "\<forall>e\<in>set (merge_events lines (i + 2)). solid e"
    using merge_events_ok by blast
  then show ?thesis using assms by (simp add: page_records_def yield_events_total)
qed

text \<open>
  C5: every event that \<open>merge_events\<close> returns is a non-empty list of non-empty segments;
  and on a page with a date and a day line where the segmenter finds an event, the driver
  yields one record for each event, without an exception, and every record it yields has
  the date of the page and a non-empty event name.
\<close>

theorem events_and_records_nonempty:
  "(\<forall>e\<in>set (merge_events lines start). e \<noteq> [] \<and> (\<forall>x\<in>set e. x \<noteq> []))
   \<and> (extract_date strptime lines = Some d \<longrightarrow> find_day_line_index lines = Some i \<longrightarrow>
      merge_events lines (i + 2) \<noteq> [] \<longrightarrow>
      snd (page_records strptime lines) = None
      \<and> length (fst (page_records strptime lines)) = length (merge_events lines (i + 2))
      \<and> (\<forall>r\<in>set (fst (page_records strptime lines)).
            fst r = isoformat d \<and> fst (snd r) \<noteq> []))"
proof -
  have a: "e \<noteq> [] \<and> (\<forall>x\<in>set e. x \<noteq> [])" if "e \<in> set (merge_events lines start)" for e
  proof -
    from that have e: "e \<noteq> []" "solid e" using merge_events_ok by blast+
    have "x \<noteq> []" if "x \<in> set e" for x
      using e(2) that str_strip_Nil by (auto simp: solid_def)
    with e(1) show ?thesis by blast
  qed
  have b: "fst r = isoformat d \<and> fst (snd r) \<noteq> []"
    if h: "extract_date strptime lines = Some d" "find_day_line_index lines = Some i"
      "merge_events lines (i + 2) \<noteq> []" "r \<in> set (fst (page_records strptime lines))" for r
  proof -
    from h have "r \<in> set (fst (yield_events (isoformat d) (merge_events lines (i + 2))))"
      by (simp add: page_records_def)
    moreover have "\<forall>e\<in>set (merge_events lines (i + 2)). e \<noteq> [] \<and> solid e"
      using merge_events_ok by blast
    ultimately show ?thesis by (rule yield_events_rows [rotated])
  qed
  show ?thesis using a b page_records_total page_records_count by blast
qed

theorem events_and_records_nonempty_witness:
  "merge_events sample_page 4
     = [[''Jane Smith (DNR)'', ''Conference Room 400''], [''MTG: Budget''], [''PH: John'']]
   \<and> page_records strptime_B_d_Y sample_page
     = ([(''2023-09-05'', ''Jane Smith (DNR)'', ''Conference Room 400'', []),
         (''2023-09-05'', ''MTG: Budget'', [], []),
         (''2023-09-05'', ''PH: John'', [], [])], None)
   \<and> isoformat \<lparr>year = 2023, month = 9, day = 5\<rparr> = ''2023-09-05''"
proof -
  let ?d = "\<lparr>year = 2023, month = 9, day = 5\<rparr>"
  have d: "extract_date strptime_B_d_Y sample_page = Some ?d" by code_simp
  have i: "find_day_line_index sample_page = Some 2" by code_simp
  have ev: "merge_events sample_page 4
     = [[''Jane Smith (DNR)'', ''Conference Room 400''], [''MTG: Budget''], [''PH: John'']]"
    by code_simp
  have pr: "page_records strptime_B_d_Y sample_page
     = ([(''2023-09-05'', ''Jane Smith (DNR)'', ''Conference Room 400'', []),
         (''2023-09-05'', ''MTG: Budget'', [], []),
         (''2023-09-05'', ''PH: John'', [], [])], None)" by code_simp
  have "\<forall>r\<in>set (fst (page_records strptime_B_d_Y sample_page)).
          fst r = isoformat ?d \<and> fst (snd r) \<noteq> []"
    using events_and_records_nonempty [of sample_page 4 strptime_B_d_Y ?d 2] d i ev by simp
  then show ?thesis using ev pr by simp
qed

section \<open>Properties of the field formatter\<close>

text \<open>
  The substitution of \<open>normalize_for_compare\<close> puts one space for every run of white
  space, so the normalization of a text is that of the trimmed text.
\<close>

lemma many1_head:
  "p c \<Longrightarrow> \<exists>rest. many1 p (c # cs) = dropWhile p cs # rest"
proof (induction cs arbitrary: c)
  case Nil
  then show ?case by simp
next
  case (Cons d ds)
  show ?case
  proof (cases "p d")
    case True
    from Cons.IH [OF True] obtain rest where "many1 p (d # ds) = dropWhile p ds # rest" by blast
    with Cons.prems True show ?thesis by simp
  next
    case False
    with Cons.prems show ?thesis by simp
  qed
qed

lemma collapse_space:
  assumes "is_space c"
  shows "rx_sub (Many1 is_space) (\<lambda>m. '' '') (c # cs)
           = CHR '' '' # rx_sub (Many1 is_space) (\<lambda>m. '' '') (dropWhile is_space cs)"
proof -
  from many1_head [of is_space c cs] assms obtain rest
    where "many1 is_space (c # cs) = dropWhile is_space cs # rest" by blast
  moreover have "length (dropWhile is_space cs) < Suc (length cs)"
    using length_dropWhile_le [of is_space cs] by simp
  ultimately show ?thesis by simp
qed

lemma collapse_other:
  assumes "\<not> is_space c"
  shows "rx_sub (Many1 is_space) (\<lambda>m. '' '') (c # cs)
           = c # rx_sub (Many1 is_space) (\<lambda>m. '' '') cs"
  using assms by simp


lemma collapse_append:
  "a \<noteq> [] \<Longrightarrow> \<not> is_space (last a) \<Longrightarrow>
   rx_sub (Many1 is_space) (\<lambda>m. '' '') (a @ b)
     = rx_sub (Many1 is_space) (\<lambda>m. '' '') a @ rx_sub (Many1 is_space) (\<lambda>m. '' '') b"
proof (induction a rule: length_induct)
  case (1 a)
  from "1.prems"(1) obtain c cs where a: "a = c # cs" by (cases a) auto
  show ?case
  proof (cases "is_space c")
    case False
    show ?thesis
    proof (cases "cs = []")
      case True
      with a False show ?thesis by (simp add: collapse_other del: rx_sub.simps(2))
    next
      case ne: False
      have "length cs < length a" using a by simp
      moreover have "\<not> is_space (last cs)" using "1.prems"(2) a ne by simp
      ultimately have "rx_sub (Many1 is_space) (\<lambda>m. '' '') (cs @ b)
        = rx_sub (Many1 is_space) (\<lambda>m. '' '') cs @ rx_sub (Many1 is_space) (\<lambda>m. '' '') b"
        using "1.IH" ne by blast
      with a False show ?thesis by (simp add: collapse_other del: rx_sub.simps(2))
    qed
  next
    case True
    have cs: "cs \<noteq> []" using "1.prems"(2) a True by auto
    then have l: "last cs = last a" using a by simp
    have "last cs \<in> set cs" using cs by simp
    have "\<not> is_space (last cs)" using l "1.prems"(2) by simp
    note \<open>last cs \<in> set cs\<close> \<open>\<not> is_space (last cs)\<close>
    then have d: "dropWhile is_space (cs @ b) = dropWhile is_space cs @ b"
      by (simp add: dropWhile_append1)
    let ?d = "dropWhile is_space cs"
    have dne: "?d \<noteq> []"
      using \<open>last cs \<in> set cs\<close> \<open>\<not> is_space (last cs)\<close> by (auto simp: dropWhile_eq_Nil_conv)
    have "last ?d = last cs"
      using dne by (metis last_appendR takeWhile_dropWhile_id)
    moreover have "length ?d < length a" using a length_dropWhile_le [of is_space cs] by simp
    ultimately have "rx_sub (Many1 is_space) (\<lambda>m. '' '') (?d @ b)
        = rx_sub (Many1 is_space) (\<lambda>m. '' '') ?d @ rx_sub (Many1 is_space) (\<lambda>m. '' '') b"
      using "1.IH" dne \<open>\<not> is_space (last cs)\<close> by simp
    then show ?thesis
      using a True d collapse_space [OF True, of "cs @ b"] collapse_space [OF True, of cs]
      by simp
  qed
qed

lemma collapse_blank:
  assumes "w \<noteq> []" and "\<forall>c\<in>set w. is_space c"
  shows "rx_sub (Many1 is_space) (\<lambda>m. '' '') w = '' ''"
proof -
  from assms(1) obtain c cs where w: "w = c # cs" by (cases w) auto
  then have "is_space c" "dropWhile is_space cs = []" using assms(2) by auto
  with w collapse_space [of c cs] show ?thesis by simp
qed

lemma strip_where_Cons: "q c \<Longrightarrow> strip_where q (c # xs) = strip_where q xs"
  by (simp add: strip_where_def)

lemma strip_where_snoc: "q c \<Longrightarrow> strip_where q (xs @ [c]) = strip_where q xs"
proof (cases "\<forall>x\<in>set xs. q x")
  case True
  assume "q c"
  with True have "strip_where q (xs @ [c]) = []" by (simp add: strip_where_empty)
  moreover from True have "strip_where q xs = []" by (simp add: strip_where_empty)
  ultimately show ?thesis by simp
next
  case False
  assume "q c"
  from False obtain x where "x \<in> set xs" "\<not> q x" by blast
  then have "dropWhile q (xs @ [c]) = dropWhile q xs @ [c]" by (simp add: dropWhile_append1)
  with \<open>q c\<close> show ?thesis by (simp add: strip_where_def)
qed

lemma normalize_lstrip:
  "strip_space_semi (rx_sub (Many1 is_space) (\<lambda>m. '' '') (dropWhile is_space t))
     = strip_space_semi (rx_sub (Many1 is_space) (\<lambda>m. '' '') t)"
proof (cases t)
  case Nil
  then show ?thesis by simp
next
  case (Cons c cs)
  show ?thesis
  proof (cases "is_space c")
    case True
    with Cons collapse_space [OF True, of cs] show ?thesis
      by (simp add: strip_space_semi_def strip_where_Cons del: rx_sub.simps)
  next
    case False
    with Cons show ?thesis by simp
  qed
qed

lemma normalize_rstrip:
  "strip_space_semi (rx_sub (Many1 is_space) (\<lambda>m. '' '') (rev (dropWhile is_space (rev t))))
     = strip_space_semi (rx_sub (Many1 is_space) (\<lambda>m. '' '') t)"
proof -
  let ?a = "rev (dropWhile is_space (rev t))" and ?w = "rev (takeWhile is_space (rev t))"
  have t: "t = ?a @ ?w"
    by (metis rev_append rev_rev_ident takeWhile_dropWhile_id)
  have w: "\<forall>c\<in>set ?w. is_space c" by (auto dest: set_takeWhileD)
  show ?thesis
  proof (cases "?w = []")
    case True
    with t show ?thesis by simp
  next
    case wne: False
    have cw: "rx_sub (Many1 is_space) (\<lambda>m. '' '') ?w = '' ''"
      using collapse_blank [OF wne w] .
    show ?thesis
    proof (cases "?a = []")
      case True
      then have "t = ?w" using t by (metis append_Nil)
      then have nt: "rx_sub (Many1 is_space) (\<lambda>m. '' '') t = '' ''" using cw by simp
      have na: "rx_sub (Many1 is_space) (\<lambda>m. '' '') ?a = []"
        by (simp only: True rx_sub.simps(1))
      show ?thesis unfolding na nt by (simp add: strip_space_semi_def strip_where_def)
    next
      case ane: False
      then have dne: "dropWhile is_space (rev t) \<noteq> []" by simp
      have "\<not> is_space (hd (dropWhile is_space (rev t)))"
        using dne by (rule hd_dropWhile)
      then have "\<not> is_space (last ?a)" using ane by (simp add: last_rev)
      from collapse_append [OF ane this, of ?w] cw
      have "rx_sub (Many1 is_space) (\<lambda>m. '' '') (?a @ ?w)
              = rx_sub (Many1 is_space) (\<lambda>m. '' '') ?a @ '' ''" by simp
      then have "rx_sub (Many1 is_space) (\<lambda>m. '' '') t
              = rx_sub (Many1 is_space) (\<lambda>m. '' '') ?a @ '' ''" using t by simp
      then show ?thesis by (simp add: strip_space_semi_def strip_where_snoc)
    qed
  qed
qed

lemma normalize_strip: "normalize_for_compare (str_strip s) = normalize_for_compare s"
  unfolding normalize_for_compare_def upper_strip
  unfolding str_strip_def strip_where_def
  by (simp only: normalize_rstrip normalize_lstrip)

text \<open>
  C8, as amended: for every event \<open>[s0, s]\<close> where \<open>s\<close> does not start with \<open>PH:\<close>
  (in any case, after trimming), where the upper-case text of \<open>s\<close>, trimmed of white
  space and then of spaces and semicolons, is already its normalization, and where that
  normalization equals the normalization of \<open>s0\<close> or is a suffix of it,
  \<open>format_event_segments [s0, s]\<close> equals \<open>format_event_segments [s0]\<close>: the segment is
  dropped and reaches neither the meeting place nor the person.
\<close>

theorem duplicate_segment_dropped:
  assumes "\<not> startswith (str_upper (str_strip s)) ''PH:''"
    and "strip_space_semi (str_upper (str_strip s)) = normalize_for_compare s"
    and "normalize_for_compare s = normalize_for_compare s0
         \<or> endswith (normalize_for_compare s0) (normalize_for_compare s)"
  shows "format_event_segments [s0, s] = format_event_segments [s0]"
proof (cases "str_strip s = []")
  case True
  then show ?thesis by (simp add: format_event_segments_def)
next
  case False
  then have ne: "s \<noteq> []" by (auto simp: str_strip_def strip_where_def)
  have skip: "should_skip_segment (str_strip s0) (str_strip s)"
    using assms(2,3) by (simp add: should_skip_segment_def Let_def normalize_strip)
  have "process_rest (str_strip s0) [] [str_strip s] = process_rest (str_strip s0) [] []"
    using False assms(1) skip by simp
  then show ?thesis using False ne by (simp add: format_event_segments_def)
qed

theorem duplicate_segment_dropped_witness:
  "format_event_segments [''Staff Meeting'', ''meeting;''] = Inr (''Staff Meeting'', [], [])"
proof -
  have a: "\<not> startswith (str_upper (str_strip ''meeting;'')) ''PH:''" by code_simp
  have b: "strip_space_semi (str_upper (str_strip ''meeting;'')) = normalize_for_compare ''meeting;''"
    by code_simp
  have c: "endswith (normalize_for_compare ''Staff Meeting'')
             (normalize_for_compare ''meeting;'')" by code_simp
  have d: "format_event_segments [''Staff Meeting''] = Inr (''Staff Meeting'', [], [])"
    by code_simp
  from duplicate_segment_dropped [OF a b, of "''Staff Meeting''"] c d show ?thesis by simp
qed

text \<open>
  The claim as stated fails for a segment that starts with \<open>PH:\<close>: the formatter appends
  it to the event name before it looks for duplicates, so a copy of the event name is
  added to it.
\<close>

theorem duplicate_segment_dropped_counterexample:
  "normalize_for_compare ''PH: Smith'' = normalize_for_compare ''PH: Smith''
   \<and> format_event_segments [''PH: Smith'', ''PH: Smith''] = Inr (''PH: Smith PH: Smith'', [], [])
   \<and> format_event_segments [''PH: Smith''] = Inr (''PH: Smith'', [], [])"
  by code_simp

text \<open>
  The segment is compared without the white space normalization that the event name
  gets: a copy of the event name with two spaces in it is kept, as a meeting place.
\<close>

lemma duplicate_segment_double_space:
  "normalize_for_compare ''A  B'' = normalize_for_compare ''A B''
   \<and> format_event_segments [''A B'', ''A  B''] = Inr (''A B'', ''A  B'', [])
   \<and> format_event_segments [''A B''] = Inr (''A B'', [], [])"
  by code_simp

end
